theory Spec2Isabelle
  imports Main
begin

section \<open>The component tree of ical.js, as combineCalendars uses it\<close>

text \<open>
  \<^verbatim>\<open>packages/calendar/combine/index.js\<close> works on the object tree of the ical.js
  library: a Component has a name, an ordered list of Property objects and an ordered
  list of sub-Components; a Property has a name, parameters and an ordered list of
  values. A value that ical.js decorates as a date or date-time is an \<^verbatim>\<open>ICAL.Time\<close>
  object with a mutable field \<^verbatim>\<open>zone\<close> (a Timezone object or null); every other value
  (text, number, duration, recurrence rule, ...) has no such field.
\<close>

datatype timezone = UtcTimezone | Tzid string

datatype val =
    Time (stamp: string) (zone: "timezone option")
  | Other string

record property =
  propName :: string
  parameters :: "(string \<times> string) list"
  propValues :: "val list"

datatype component =
  Component (name: string) (properties: "property list") (subcomponents: "component list")

datatype error = ParserError string | Error string

fun message :: "error \<Rightarrow> string" where
  "message (ParserError m) = m"
| "message (Error m) = m"

subsection \<open>The library calls\<close>

text \<open>
  \<^verbatim>\<open>Component.getAllSubcomponents(name)\<close> walks the component's own list of
  subcomponents (\<^verbatim>\<open>this.jCal[2]\<close>), keeping those whose name is \<^verbatim>\<open>name\<close>; with a
  falsy name it returns them all. It does not descend into the subcomponents.
\<close>

definition getAllSubcomponents :: "component \<Rightarrow> string \<Rightarrow> component list" where
  "getAllSubcomponents c n =
     (if n = [] then subcomponents c else filter (\<lambda>s. name s = n) (subcomponents c))"

text \<open>
  \<^verbatim>\<open>Component.getFirstProperty(name)\<close>: the first property of that name in the
  component's own property list, or null; with a falsy name, the first property.
\<close>

definition getFirstProperty :: "component \<Rightarrow> string \<Rightarrow> property option" where
  "getFirstProperty c n =
     (if n = [] then (case properties c of [] \<Rightarrow> None | p # _ \<Rightarrow> Some p)
      else find (\<lambda>p. propName p = n) (properties c))"

text \<open>\<^verbatim>\<open>Property.getFirstValue()\<close>: the first value, or null when there is none.\<close>

definition getFirstValue :: "property \<Rightarrow> val option" where
  "getFirstValue p = (case propValues p of [] \<Rightarrow> None | v # _ \<Rightarrow> Some v)"

definition getFirstPropertyValue :: "component \<Rightarrow> string \<Rightarrow> val option" where
  "getFirstPropertyValue c n =
     (case getFirstProperty c n of None \<Rightarrow> None | Some p \<Rightarrow> getFirstValue p)"

text \<open>
  \<^verbatim>\<open>Component.addProperty(property)\<close> pushes the property at the end of the
  component's list. When the property already has a parent it first calls
  \<^verbatim>\<open>property.parent.removeProperty(property)\<close>, which takes that object out of the
  old parent's list: the property is moved. \<open>removeProperty\<close> is that removal on the
  old parent; the object removed by combineCalendars is always the first property of
  its name, which is the first element equal to it.
\<close>

definition removeProperty :: "component \<Rightarrow> property \<Rightarrow> component" where
  "removeProperty c p = Component (name c) (remove1 p (properties c)) (subcomponents c)"

definition addProperty :: "component \<Rightarrow> property \<Rightarrow> component" where
  "addProperty c p = Component (name c) (properties c @ [p]) (subcomponents c)"

text \<open>
  \<^verbatim>\<open>Property.setValue(value)\<close> replaces all values of the property by the one given.
  \<^verbatim>\<open>Component.addPropertyWithValue(name, value)\<close> makes a new Property of that name
  (no parameters), sets its value and adds it.
  \<^verbatim>\<open>Component.updatePropertyWithValue(name, value)\<close> sets the value of the property
  that \<^verbatim>\<open>getFirstProperty(name)\<close> finds when there is one (\<open>setFirstFound\<close> is that
  update, at the place of the property in the list), and adds a new property otherwise.
\<close>

definition setValue :: "property \<Rightarrow> val \<Rightarrow> property" where
  "setValue p v = p\<lparr>propValues := [v]\<rparr>"

definition addPropertyWithValue :: "component \<Rightarrow> string \<Rightarrow> val \<Rightarrow> component" where
  "addPropertyWithValue c n v =
     addProperty c (setValue \<lparr>propName = n, parameters = [], propValues = []\<rparr> v)"

fun setFirstFound :: "string \<Rightarrow> val \<Rightarrow> property list \<Rightarrow> property list" where
  "setFirstFound n v [] = []"
| "setFirstFound n v (p # ps) =
     (if n = [] \<or> propName p = n then setValue p v # ps else p # setFirstFound n v ps)"

definition updatePropertyWithValue :: "component \<Rightarrow> string \<Rightarrow> val \<Rightarrow> component" where
  "updatePropertyWithValue c n v =
     (case getFirstProperty c n of
        Some prop \<Rightarrow> Component (name c) (setFirstFound n v (properties c)) (subcomponents c)
      | None \<Rightarrow> addPropertyWithValue c n v)"

text \<open>
  \<^verbatim>\<open>Component.addSubcomponent(component)\<close> pushes the component at the end of the
  list of subcomponents (and, like \<open>addProperty\<close>, takes it out of its previous
  parent; the previous parent here is the parsed source calendar, which
  combineCalendars does not read again).
\<close>

definition addSubcomponent :: "component \<Rightarrow> component \<Rightarrow> component" where
  "addSubcomponent c s = Component (name c) (properties c) (subcomponents c @ [s])"

section \<open>combineCalendars\<close>

text \<open>Line 101.\<close>

definition essentialProps :: "string list" where
  "essentialProps = [''dtstart'', ''dtend'', ''duration'', ''rrule'', ''uid'']"

text \<open>
  The body of \<^verbatim>\<open>essentialProps.forEach\<close> (lines 102 to 107): the state is the source
  event and the new event; a property found in the source event is moved to the new one.
\<close>

fun copyEssential :: "string \<Rightarrow> component \<times> component \<Rightarrow> component \<times> component" where
  "copyEssential propName' (event, obfuscatedEvent) =
     (case getFirstProperty event propName' of
        None \<Rightarrow> (event, obfuscatedEvent)
      | Some prop \<Rightarrow> (removeProperty event prop, addProperty obfuscatedEvent prop))"

text \<open>Lines 98 to 113: the event that replaces the source event when obfuscate is set.\<close>

definition obfuscatedEvent :: "component \<Rightarrow> component" where
  "obfuscatedEvent event =
     updatePropertyWithValue
       (snd (fold copyEssential essentialProps (event, Component ''vevent'' [] [])))
       ''summary'' (Other ''BUSY'')"

text \<open>
  Lines 116 to 119. \<^verbatim>\<open>startDate\<close> is the first value of the first dtstart property.
  When it is an \<^verbatim>\<open>ICAL.Time\<close> whose \<^verbatim>\<open>zone\<close> is null, the assignment sets the
  field of that object, which stays where it is in the event. A value of any other
  kind has no \<^verbatim>\<open>zone\<close> field that the library reads, and null skips the branch.
\<close>

fun setZoneFirst :: "val list \<Rightarrow> val list" where
  "setZoneFirst (Time s None # vs) = Time s (Some UtcTimezone) # vs"
| "setZoneFirst vs = vs"

fun zoneFirstNamed :: "string \<Rightarrow> property list \<Rightarrow> property list" where
  "zoneFirstNamed n [] = []"
| "zoneFirstNamed n (p # ps) =
     (if propName p = n then p\<lparr>propValues := setZoneFirst (propValues p)\<rparr> # ps
      else p # zoneFirstNamed n ps)"

definition zoneStartDate :: "component \<Rightarrow> component" where
  "zoneStartDate event =
     (case getFirstPropertyValue event ''dtstart'' of
        Some (Time s None) \<Rightarrow>
          Component (name event) (zoneFirstNamed ''dtstart'' (properties event))
            (subcomponents event)
      | _ \<Rightarrow> event)"

text \<open>The body of \<^verbatim>\<open>events.forEach\<close> (lines 95 to 123): the event that is appended.\<close>

definition processEvent :: "bool \<Rightarrow> component \<Rightarrow> component" where
  "processEvent obfuscate event =
     zoneStartDate (if obfuscate then obfuscatedEvent event else event)"

definition forEachEvent :: "bool \<Rightarrow> component list \<Rightarrow> component \<Rightarrow> component" where
  "forEachEvent obfuscate events combinedCalendar =
     fold (\<lambda>event acc. addSubcomponent acc (processEvent obfuscate event))
       events combinedCalendar"

text \<open>
  The body of \<^verbatim>\<open>calendars.forEach\<close> (lines 88 to 124). \<open>parse\<close> stands for
  \<^verbatim>\<open>new ical.Component(ical.parse(calendarData))\<close> on a text with one top-level
  component; \<^verbatim>\<open>ical.parse\<close> throws a ParserError on a text it rejects, and the
  exception leaves combineCalendars. The calls of \<^verbatim>\<open>log\<close> and the counter
  \<^verbatim>\<open>totalEvents\<close>, which is only logged, are left out.
\<close>

fun forEachCalendar ::
  "(string \<Rightarrow> error + component) \<Rightarrow> bool \<Rightarrow> string list \<Rightarrow> component \<Rightarrow> error + component" where
  "forEachCalendar parse obfuscate [] combinedCalendar = Inr combinedCalendar"
| "forEachCalendar parse obfuscate (calendarData # rest) combinedCalendar =
     (case parse calendarData of
        Inl e \<Rightarrow> Inl e
      | Inr calendar \<Rightarrow>
          forEachCalendar parse obfuscate rest
            (forEachEvent obfuscate (getAllSubcomponents calendar ''vevent'') combinedCalendar))"

definition combineCalendars ::
  "(string \<Rightarrow> error + component) \<Rightarrow> string list \<Rightarrow> bool \<Rightarrow> error + component" where
  "combineCalendars parse calendars obfuscate =
     forEachCalendar parse obfuscate calendars (Component ''vcalendar'' [] [])"

text \<open>
  The events that line 92 takes from one source text: the result of
  \<^verbatim>\<open>calendar.getAllSubcomponents("vevent")\<close> on the parsed text (none when the
  parser rejects it).
\<close>

definition sourceEvents :: "(string \<Rightarrow> error + component) \<Rightarrow> string \<Rightarrow> component list" where
  "sourceEvents parse calendarData =
     (case parse calendarData of
        Inl e \<Rightarrow> []
      | Inr calendar \<Rightarrow> getAllSubcomponents calendar ''vevent'')"

subsection \<open>The redaction as the specification words it\<close>

text \<open>
  The specification describes the redacted event without the loop: for each name of the
  essential property set, in its fixed order, the first property of that name in the source
  event when there is one, and then a summary property with the value BUSY. The two
  definitions below follow those words; \<open>obfuscatedEvent\<close> above follows the code, and
  the two are compared further down.
\<close>

definition firstEssentials :: "component \<Rightarrow> property list" where
  "firstEssentials event =
     List.map_filter (\<lambda>n. find (\<lambda>p. propName p = n) (properties event)) essentialProps"

definition busySummary :: property where
  "busySummary = \<lparr>propName = ''summary'', parameters = [], propValues = [Other ''BUSY'']\<rparr>"

subsection \<open>The calling layer\<close>

text \<open>
  \<^verbatim>\<open>main\<close> (lines 169 to 220), with its collaborators as parameters: the value of
  the environment variable BUCKET_NAME, the list that \<^verbatim>\<open>getCalendarUrls()\<close>
  returns, \<^verbatim>\<open>downloadCalendar\<close> and \<^verbatim>\<open>uploadToSpaces\<close>. Every exception thrown
  inside the \<^verbatim>\<open>try\<close> block ends in the response with status 500. The downloads
  are awaited together; the model reports the first failure in list order.
\<close>

record response =
  body :: string
  statusCode :: nat

fun downloadAll :: "(string \<Rightarrow> error + string) \<Rightarrow> string list \<Rightarrow> error + string list" where
  "downloadAll downloadCalendar [] = Inr []"
| "downloadAll downloadCalendar (url # urls) =
     (case downloadCalendar url of
        Inl e \<Rightarrow> Inl e
      | Inr text \<Rightarrow>
          (case downloadAll downloadCalendar urls of
             Inl e \<Rightarrow> Inl e
           | Inr texts \<Rightarrow> Inr (text # texts)))"

definition mainBody ::
  "(string \<Rightarrow> error + component) \<Rightarrow> (string \<Rightarrow> error + string) \<Rightarrow>
   (component \<Rightarrow> string \<Rightarrow> string \<Rightarrow> error + unit) \<Rightarrow>
   string option \<Rightarrow> string list \<Rightarrow> string \<Rightarrow> bool \<Rightarrow> error + unit" where
  "mainBody parse downloadCalendar uploadToSpaces bucketName urls outputKey obfuscate =
     (case bucketName of
        None \<Rightarrow> Inl (Error ''BUCKET_NAME environment variable is not set'')
      | Some bucket \<Rightarrow>
          if bucket = [] then Inl (Error ''BUCKET_NAME environment variable is not set'')
          else if length urls < 2 then Inl (Error ''At least two calendar URLs are required'')
          else
            (case downloadAll downloadCalendar urls of
               Inl e \<Rightarrow> Inl e
             | Inr calendars \<Rightarrow>
                 (case combineCalendars parse calendars obfuscate of
                    Inl e \<Rightarrow> Inl e
                  | Inr combinedCalendar \<Rightarrow> uploadToSpaces combinedCalendar bucket outputKey)))"

definition main ::
  "(string \<Rightarrow> error + component) \<Rightarrow> (string \<Rightarrow> error + string) \<Rightarrow>
   (component \<Rightarrow> string \<Rightarrow> string \<Rightarrow> error + unit) \<Rightarrow>
   string option \<Rightarrow> string list \<Rightarrow> string \<Rightarrow> bool \<Rightarrow> response" where
  "main parse downloadCalendar uploadToSpaces bucketName urls outputKey obfuscate =
     (case mainBody parse downloadCalendar uploadToSpaces bucketName urls outputKey obfuscate of
        Inl e \<Rightarrow> \<lparr>body = ''Error: '' @ message e, statusCode = 500\<rparr>
      | Inr u \<Rightarrow> \<lparr>body = ''Calendars combined and uploaded successfully'', statusCode = 200\<rparr>)"

section \<open>The same code on objects with identity\<close>

text \<open>
  The trees above are values: they cannot say whether two events hold the same Property
  object. Here every Component and every Property is an object at an address, a component
  holds the addresses of its properties and subcomponents, and every object knows its
  parent, as in ical.js. The library calls are the same as above, now with what they do
  to the parent links: \<^verbatim>\<open>addProperty\<close> and \<^verbatim>\<open>addSubcomponent\<close> first take the object
  out of its previous parent (\<^verbatim>\<open>removeProperty\<close>, \<^verbatim>\<open>removeSubcomponent\<close>, which
  remove that very object and clear its parent link), then push it and set its parent.
  combineCalendars is run on a heap that already holds the parsed source calendars,
  given by the addresses of their top-level components.
\<close>

type_synonym ref = nat

record propertyObject =
  propertyName :: string
  propertyParameters :: "(string \<times> string) list"
  propertyValues :: "val list"
  propertyParent :: "ref option"

record componentObject =
  componentName :: string
  componentProperties :: "ref list"
  componentSubcomponents :: "ref list"
  componentParent :: "ref option"

record heap =
  componentAt :: "ref \<Rightarrow> componentObject"
  propertyAt :: "ref \<Rightarrow> propertyObject"
  nextComponent :: ref
  nextProperty :: ref

text \<open>
  \<^verbatim>\<open>new ical.Component(name)\<close> and \<^verbatim>\<open>new ical.Property(name)\<close>: a fresh object
  without properties, subcomponents, values or parent, at the next free address.
\<close>

definition newComponent :: "heap \<Rightarrow> string \<Rightarrow> heap \<times> ref" where
  "newComponent h n =
     (h\<lparr>componentAt := (componentAt h)(nextComponent h :=
           \<lparr>componentName = n, componentProperties = [], componentSubcomponents = [],
            componentParent = None\<rparr>),
        nextComponent := Suc (nextComponent h)\<rparr>,
      nextComponent h)"

definition newProperty :: "heap \<Rightarrow> string \<Rightarrow> heap \<times> ref" where
  "newProperty h n =
     (h\<lparr>propertyAt := (propertyAt h)(nextProperty h :=
           \<lparr>propertyName = n, propertyParameters = [], propertyValues = [],
            propertyParent = None\<rparr>),
        nextProperty := Suc (nextProperty h)\<rparr>,
      nextProperty h)"

text \<open>
  The lookups, as on trees: \<^verbatim>\<open>getAllSubcomponents\<close>, \<^verbatim>\<open>getFirstProperty\<close> and
  \<^verbatim>\<open>getFirstPropertyValue\<close> read the component's own lists and return the objects
  themselves.
\<close>

definition propertiesOf :: "heap \<Rightarrow> ref \<Rightarrow> ref list" where
  "propertiesOf h c = componentProperties (componentAt h c)"

definition subcomponentsOf :: "heap \<Rightarrow> ref \<Rightarrow> ref list" where
  "subcomponentsOf h c = componentSubcomponents (componentAt h c)"

definition getAllSubcomponentsH :: "heap \<Rightarrow> ref \<Rightarrow> string \<Rightarrow> ref list" where
  "getAllSubcomponentsH h c n =
     (if n = [] then subcomponentsOf h c
      else filter (\<lambda>s. componentName (componentAt h s) = n) (subcomponentsOf h c))"

definition getFirstPropertyH :: "heap \<Rightarrow> ref \<Rightarrow> string \<Rightarrow> ref option" where
  "getFirstPropertyH h c n =
     (if n = [] then (case propertiesOf h c of [] \<Rightarrow> None | p # _ \<Rightarrow> Some p)
      else find (\<lambda>p. propertyName (propertyAt h p) = n) (propertiesOf h c))"

definition getFirstPropertyValueH :: "heap \<Rightarrow> ref \<Rightarrow> string \<Rightarrow> val option" where
  "getFirstPropertyValueH h c n =
     (case getFirstPropertyH h c n of
        None \<Rightarrow> None
      | Some p \<Rightarrow> (case propertyValues (propertyAt h p) of [] \<Rightarrow> None | v # _ \<Rightarrow> Some v))"

text \<open>
  \<^verbatim>\<open>removeProperty(property)\<close> looks for that object in the component's list; when it
  is there it is taken out and its parent link is cleared. \<^verbatim>\<open>addProperty(property)\<close>
  calls it on the property's parent, when the property has one, then pushes the property
  and sets its parent link.
\<close>

definition removePropertyH :: "heap \<Rightarrow> ref \<Rightarrow> ref \<Rightarrow> heap" where
  "removePropertyH h c p =
     (if p \<in> set (propertiesOf h c)
      then h\<lparr>componentAt := (componentAt h)(c :=
                (componentAt h c)\<lparr>componentProperties := remove1 p (propertiesOf h c)\<rparr>),
             propertyAt := (propertyAt h)(p := (propertyAt h p)\<lparr>propertyParent := None\<rparr>)\<rparr>
      else h)"

definition addPropertyH :: "heap \<Rightarrow> ref \<Rightarrow> ref \<Rightarrow> heap" where
  "addPropertyH h c p =
     (let h1 = (case propertyParent (propertyAt h p) of
                  None \<Rightarrow> h
                | Some old \<Rightarrow> removePropertyH h old p)
      in h1\<lparr>componentAt := (componentAt h1)(c :=
               (componentAt h1 c)\<lparr>componentProperties := propertiesOf h1 c @ [p]\<rparr>),
            propertyAt := (propertyAt h1)(p := (propertyAt h1 p)\<lparr>propertyParent := Some c\<rparr>)\<rparr>)"

text \<open>
  \<^verbatim>\<open>setValue\<close>, \<^verbatim>\<open>addPropertyWithValue\<close> and \<^verbatim>\<open>updatePropertyWithValue\<close>: the
  value is set in the Property object that \<^verbatim>\<open>getFirstProperty\<close> returned, or in a new
  Property object that is then added.
\<close>

definition setValueH :: "heap \<Rightarrow> ref \<Rightarrow> val \<Rightarrow> heap" where
  "setValueH h p v = h\<lparr>propertyAt := (propertyAt h)(p := (propertyAt h p)\<lparr>propertyValues := [v]\<rparr>)\<rparr>"

definition addPropertyWithValueH :: "heap \<Rightarrow> ref \<Rightarrow> string \<Rightarrow> val \<Rightarrow> heap" where
  "addPropertyWithValueH h c n v =
     (case newProperty h n of (h1, prop) \<Rightarrow> addPropertyH (setValueH h1 prop v) c prop)"

definition updatePropertyWithValueH :: "heap \<Rightarrow> ref \<Rightarrow> string \<Rightarrow> val \<Rightarrow> heap" where
  "updatePropertyWithValueH h c n v =
     (case getFirstPropertyH h c n of
        Some prop \<Rightarrow> setValueH h prop v
      | None \<Rightarrow> addPropertyWithValueH h c n v)"

text \<open>\<^verbatim>\<open>removeSubcomponent\<close> and \<^verbatim>\<open>addSubcomponent\<close>, in the same way.\<close>

definition removeSubcomponentH :: "heap \<Rightarrow> ref \<Rightarrow> ref \<Rightarrow> heap" where
  "removeSubcomponentH h c s =
     (if s \<in> set (subcomponentsOf h c)
      then (let h1 = h\<lparr>componentAt := (componentAt h)(s :=
                        (componentAt h s)\<lparr>componentParent := None\<rparr>)\<rparr>
            in h1\<lparr>componentAt := (componentAt h1)(c :=
                  (componentAt h1 c)\<lparr>componentSubcomponents := remove1 s (subcomponentsOf h1 c)\<rparr>)\<rparr>)
      else h)"

definition addSubcomponentH :: "heap \<Rightarrow> ref \<Rightarrow> ref \<Rightarrow> heap" where
  "addSubcomponentH h c s =
     (let h1 = (case componentParent (componentAt h s) of
                  None \<Rightarrow> h
                | Some old \<Rightarrow> removeSubcomponentH h old s);
          h2 = h1\<lparr>componentAt := (componentAt h1)(c :=
                  (componentAt h1 c)\<lparr>componentSubcomponents := subcomponentsOf h1 c @ [s]\<rparr>)\<rparr>
      in h2\<lparr>componentAt := (componentAt h2)(s :=
              (componentAt h2 s)\<lparr>componentParent := Some c\<rparr>)\<rparr>)"

text \<open>
  combineCalendars, line by line as above: the loop over the essential names (lines 102 to
  107), the obfuscated event (lines 98 to 113), the zone of the start date (lines 116 to
  119), the body of the loop over the events (lines 95 to 123), the body of the loop over
  the calendars, and the whole. The source event keeps its place in the source calendar
  when obfuscate is set; when it is not, \<^verbatim>\<open>addSubcomponent\<close> moves the event itself.
\<close>

definition copyEssentialH :: "ref \<Rightarrow> ref \<Rightarrow> string \<Rightarrow> heap \<Rightarrow> heap" where
  "copyEssentialH event obfuscated propName' h =
     (case getFirstPropertyH h event propName' of
        None \<Rightarrow> h
      | Some prop \<Rightarrow> addPropertyH h obfuscated prop)"

definition obfuscatedEventH :: "heap \<Rightarrow> ref \<Rightarrow> heap \<times> ref" where
  "obfuscatedEventH h event =
     (case newComponent h ''vevent'' of
        (h1, obfuscated) \<Rightarrow>
          (updatePropertyWithValueH
             (fold (copyEssentialH event obfuscated) essentialProps h1)
             obfuscated ''summary'' (Other ''BUSY''),
           obfuscated))"

definition zoneStartDateH :: "heap \<Rightarrow> ref \<Rightarrow> heap" where
  "zoneStartDateH h event =
     (case getFirstPropertyValueH h event ''dtstart'' of
        Some (Time s None) \<Rightarrow>
          (case getFirstPropertyH h event ''dtstart'' of
             None \<Rightarrow> h
           | Some p \<Rightarrow>
               h\<lparr>propertyAt := (propertyAt h)(p :=
                   (propertyAt h p)\<lparr>propertyValues :=
                      setZoneFirst (propertyValues (propertyAt h p))\<rparr>)\<rparr>)
      | _ \<Rightarrow> h)"

definition processEventH :: "bool \<Rightarrow> ref \<Rightarrow> ref \<Rightarrow> heap \<Rightarrow> heap" where
  "processEventH obfuscate combinedCalendar event h =
     (case (if obfuscate then obfuscatedEventH h event else (h, event)) of
        (h1, event') \<Rightarrow> addSubcomponentH (zoneStartDateH h1 event') combinedCalendar event')"

definition forEachCalendarH :: "bool \<Rightarrow> ref \<Rightarrow> ref \<Rightarrow> heap \<Rightarrow> heap" where
  "forEachCalendarH obfuscate combinedCalendar calendar h =
     fold (processEventH obfuscate combinedCalendar)
       (getAllSubcomponentsH h calendar ''vevent'') h"

definition combineCalendarsH :: "heap \<Rightarrow> ref list \<Rightarrow> bool \<Rightarrow> heap \<times> ref" where
  "combineCalendarsH h calendars obfuscate =
     (case newComponent h ''vcalendar'' of
        (h0, combinedCalendar) \<Rightarrow>
          (fold (forEachCalendarH obfuscate combinedCalendar) calendars h0, combinedCalendar))"

text \<open>
  Reading a component back as a tree of values, down to a given depth, and the shape of
  a heap that a parser builds: the objects a component lists are allocated, listed once,
  and name that component as their parent.
\<close>

definition readProperty :: "heap \<Rightarrow> ref \<Rightarrow> property" where
  "readProperty h p =
     \<lparr>propName = propertyName (propertyAt h p),
      parameters = propertyParameters (propertyAt h p),
      propValues = propertyValues (propertyAt h p)\<rparr>"

fun readComponent :: "nat \<Rightarrow> heap \<Rightarrow> ref \<Rightarrow> component" where
  "readComponent 0 h c =
     Component (componentName (componentAt h c)) (map (readProperty h) (propertiesOf h c)) []"
| "readComponent (Suc k) h c =
     Component (componentName (componentAt h c)) (map (readProperty h) (propertiesOf h c))
       (map (readComponent k h) (subcomponentsOf h c))"

definition wellFormed :: "heap \<Rightarrow> bool" where
  "wellFormed h \<longleftrightarrow>
     (\<forall>c < nextComponent h.
        distinct (propertiesOf h c) \<and>
        (\<forall>p \<in> set (propertiesOf h c).
           p < nextProperty h \<and> propertyParent (propertyAt h p) = Some c) \<and>
        distinct (subcomponentsOf h c) \<and>
        (\<forall>s \<in> set (subcomponentsOf h c).
           s < nextComponent h \<and> componentParent (componentAt h s) = Some c))"

text \<open>
  Notions used to follow the heap through the loops. \<open>ownsProperties\<close> is the
  part of \<open>wellFormed\<close> about properties; \<open>sameShape\<close> relates two heaps whose
  components have the same names, subcomponents and parents; \<open>detach\<close> is the first
  half of \<^verbatim>\<open>addProperty\<close>; \<open>combining n0\<close> holds of the heap while the second loop
  runs with obfuscate set, where \<open>n0\<close> is the address of the combined calendar and
  every component below \<open>n0\<close> existed before the call; \<open>keeps g g' c\<close> says that
  component \<open>c\<close> has in \<open>g'\<close> the name and the properties, read as values, that
  it has in \<open>g\<close>.
\<close>

definition ownsProperties :: "heap \<Rightarrow> bool" where
  "ownsProperties h \<longleftrightarrow>
     (\<forall>c < nextComponent h.
        distinct (propertiesOf h c) \<and>
        (\<forall>p \<in> set (propertiesOf h c).
           p < nextProperty h \<and> propertyParent (propertyAt h p) = Some c))"

definition sameShape :: "heap \<Rightarrow> heap \<Rightarrow> bool" where
  "sameShape h h' \<longleftrightarrow>
     nextComponent h' = nextComponent h \<and>
     (\<forall>c. componentName (componentAt h' c) = componentName (componentAt h c) \<and>
          subcomponentsOf h' c = subcomponentsOf h c \<and>
          componentParent (componentAt h' c) = componentParent (componentAt h c))"

definition detach :: "heap \<Rightarrow> ref \<Rightarrow> heap" where
  "detach h p =
     (case propertyParent (propertyAt h p) of
        None \<Rightarrow> h
      | Some old \<Rightarrow> removePropertyH h old p)"

definition combining :: "ref \<Rightarrow> heap \<Rightarrow> bool" where
  "combining n0 h \<longleftrightarrow>
     ownsProperties h \<and> n0 < nextComponent h \<and>
     (\<forall>c < n0. \<forall>s \<in> set (subcomponentsOf h c). s < n0) \<and>
     (\<forall>s \<in> set (subcomponentsOf h n0). n0 < s \<and> s < nextComponent h) \<and>
     (\<forall>e. n0 < e \<longrightarrow> e < nextComponent h \<longrightarrow> subcomponentsOf h e = [])"

definition keeps :: "heap \<Rightarrow> heap \<Rightarrow> ref \<Rightarrow> bool" where
  "keeps g g' c \<longleftrightarrow>
     componentName (componentAt g' c) = componentName (componentAt g c) \<and>
     propertiesOf g' c = propertiesOf g c \<and>
     (\<forall>q \<in> set (propertiesOf g c). readProperty g' q = readProperty g q)"

subsection \<open>Example sources\<close>

text \<open>
  Parsed sources used to run the definitions: source A holds one event with a UTC start,
  a summary and a location; source B one weekly event with a floating start; source C an
  event without any start; source D an event nested under a grouping component; source E
  an event with two dtstart properties.
\<close>

definition textProp :: "string \<Rightarrow> string \<Rightarrow> property" where
  "textProp n v = \<lparr>propName = n, parameters = [], propValues = [Other v]\<rparr>"

definition timeProp :: "string \<Rightarrow> string \<Rightarrow> timezone option \<Rightarrow> property" where
  "timeProp n s z = \<lparr>propName = n, parameters = [], propValues = [Time s z]\<rparr>"

definition eventA :: component where
  "eventA = Component ''vevent''
     [textProp ''uid'' ''a-1'',
      timeProp ''dtstart'' ''2024-01-01T10:00:00'' (Some UtcTimezone),
      timeProp ''dtend'' ''2024-01-01T11:00:00'' (Some UtcTimezone),
      textProp ''summary'' ''Dentist'',
      textProp ''location'' ''Clinic''] []"

definition eventB :: component where
  "eventB = Component ''vevent''
     [timeProp ''dtstart'' ''2024-01-02T09:00:00'' None,
      timeProp ''dtend'' ''2024-01-02T09:30:00'' None,
      textProp ''rrule'' ''FREQ=WEEKLY'',
      textProp ''uid'' ''b-1'',
      textProp ''description'' ''Standup'',
      textProp ''x-custom'' ''secret'']
     [Component ''valarm'' [textProp ''action'' ''DISPLAY''] []]"

definition eventC :: component where
  "eventC = Component ''vevent''
     [textProp ''uid'' ''c-1'', textProp ''summary'' ''No start''] []"

definition eventE :: component where
  "eventE = Component ''vevent''
     [timeProp ''dtstart'' ''2024-01-03T08:00:00'' None,
      timeProp ''dtstart'' ''2024-01-04T08:00:00'' None,
      textProp ''uid'' ''e-1''] []"

definition calendarOf :: "component list \<Rightarrow> component" where
  "calendarOf cs = Component ''vcalendar''
     [textProp ''version'' ''2.0'', textProp ''prodid'' ''-//example//EN''] cs"

definition exampleParse :: "string \<Rightarrow> error + component" where
  "exampleParse calendarData =
     (if calendarData = ''A'' then Inr (calendarOf [eventA])
      else if calendarData = ''B'' then
        Inr (calendarOf [Component ''vtimezone'' [textProp ''tzid'' ''Europe/Madrid''] [], eventB])
      else if calendarData = ''C'' then Inr (calendarOf [eventC])
      else if calendarData = ''D'' then
        Inr (calendarOf [Component ''x-group'' [] [eventA]])
      else if calendarData = ''E'' then Inr (calendarOf [eventE])
      else Inl (ParserError ''invalid ical body. component began but did not end''))"

text \<open>
  A heap with one parsed source: the calendar at address 0 with its version property, and
  its event at address 1 with a summary, a uid, a floating start and a location.
\<close>

definition exampleHeap :: heap where
  "exampleHeap =
     \<lparr>componentAt = (\<lambda>c.
         if c = 0 then \<lparr>componentName = ''vcalendar'', componentProperties = [0],
                        componentSubcomponents = [1], componentParent = None\<rparr>
         else if c = 1 then \<lparr>componentName = ''vevent'', componentProperties = [1, 2, 3, 4],
                        componentSubcomponents = [], componentParent = Some 0\<rparr>
         else \<lparr>componentName = [], componentProperties = [], componentSubcomponents = [],
               componentParent = None\<rparr>),
      propertyAt = (\<lambda>p.
         if p = 0 then \<lparr>propertyName = ''version'', propertyParameters = [],
                        propertyValues = [Other ''2.0''], propertyParent = Some 0\<rparr>
         else if p = 1 then \<lparr>propertyName = ''summary'', propertyParameters = [],
                        propertyValues = [Other ''Dentist''], propertyParent = Some 1\<rparr>
         else if p = 2 then \<lparr>propertyName = ''uid'', propertyParameters = [],
                        propertyValues = [Other ''a-1''], propertyParent = Some 1\<rparr>
         else if p = 3 then \<lparr>propertyName = ''dtstart'', propertyParameters = [],
                        propertyValues = [Time ''2024-01-02T09:00:00'' None],
                        propertyParent = Some 1\<rparr>
         else if p = 4 then \<lparr>propertyName = ''location'', propertyParameters = [],
                        propertyValues = [Other ''Clinic''], propertyParent = Some 1\<rparr>
         else \<lparr>propertyName = [], propertyParameters = [], propertyValues = [],
               propertyParent = None\<rparr>),
      nextComponent = 2, nextProperty = 5\<rparr>"

definition exampleRun :: "heap \<times> ref" where
  "exampleRun = combineCalendarsH exampleHeap [0] True"

section \<open>Properties of combineCalendars\<close>

subsection \<open>Running the examples\<close>

lemmas library_defs =
  getAllSubcomponents_def getFirstProperty_def getFirstValue_def getFirstPropertyValue_def
  removeProperty_def addProperty_def setValue_def addPropertyWithValue_def
  updatePropertyWithValue_def addSubcomponent_def

lemmas combine_defs =
  combineCalendars_def forEachEvent_def processEvent_def zoneStartDate_def
  obfuscatedEvent_def essentialProps_def sourceEvents_def

lemmas example_defs =
  exampleParse_def calendarOf_def eventA_def eventB_def eventC_def eventE_def
  textProp_def timeProp_def

lemma example_AB_plain:
  "combineCalendars exampleParse [''A'', ''B''] False =
     Inr (Component ''vcalendar'' []
       [eventA,
        Component ''vevent''
          [timeProp ''dtstart'' ''2024-01-02T09:00:00'' (Some UtcTimezone),
           timeProp ''dtend'' ''2024-01-02T09:30:00'' None,
           textProp ''rrule'' ''FREQ=WEEKLY'',
           textProp ''uid'' ''b-1'',
           textProp ''description'' ''Standup'',
           textProp ''x-custom'' ''secret'']
          [Component ''valarm'' [textProp ''action'' ''DISPLAY''] []]])"
  by (simp add: library_defs combine_defs example_defs)

lemma example_AB_busy:
  "combineCalendars exampleParse [''A'', ''B''] True =
     Inr (Component ''vcalendar'' []
       [Component ''vevent''
          [timeProp ''dtstart'' ''2024-01-01T10:00:00'' (Some UtcTimezone),
           timeProp ''dtend'' ''2024-01-01T11:00:00'' (Some UtcTimezone),
           textProp ''uid'' ''a-1'',
           textProp ''summary'' ''BUSY''] [],
        Component ''vevent''
          [timeProp ''dtstart'' ''2024-01-02T09:00:00'' (Some UtcTimezone),
           timeProp ''dtend'' ''2024-01-02T09:30:00'' None,
           textProp ''rrule'' ''FREQ=WEEKLY'',
           textProp ''uid'' ''b-1'',
           textProp ''summary'' ''BUSY''] []])"
  by (simp add: library_defs combine_defs example_defs)


lemma example_CD_busy:
  "combineCalendars exampleParse [''C'', ''D''] True =
     Inr (Component ''vcalendar'' []
       [Component ''vevent'' [textProp ''uid'' ''c-1'', textProp ''summary'' ''BUSY''] []])"
  by (simp add: library_defs combine_defs example_defs)



lemma example_sourceEvents:
  "sourceEvents exampleParse ''A'' = [eventA]"
  "sourceEvents exampleParse ''B'' = [eventB]"
  "sourceEvents exampleParse ''C'' = [eventC]"
  "sourceEvents exampleParse ''D'' = []"
  "sourceEvents exampleParse ''E'' = [eventE]"
  by (simp_all add: sourceEvents_def getAllSubcomponents_def example_defs)

lemma example_wellformed:
  "\<not> isl (exampleParse ''A'')" "\<not> isl (exampleParse ''B'')" "\<not> isl (exampleParse ''C'')"
  "\<not> isl (exampleParse ''D'')" "\<not> isl (exampleParse ''E'')"
  by (simp_all add: exampleParse_def)

subsection \<open>The combined document as a list\<close>

lemma forEachEvent_eq:
  "forEachEvent obfuscate events c =
     Component (name c) (properties c) (subcomponents c @ map (processEvent obfuscate) events)"
  unfolding forEachEvent_def
  by (induction events arbitrary: c) (simp_all add: addSubcomponent_def)

lemma forEachCalendar_Inr:
  "forEachCalendar parse obfuscate calendars c = Inr doc \<Longrightarrow>
     doc = Component (name c) (properties c)
       (subcomponents c @
          concat (map (\<lambda>d. map (processEvent obfuscate) (sourceEvents parse d)) calendars))"
proof (induction calendars arbitrary: c)
  case Nil
  then show ?case by simp
next
  case (Cons d ds)
  show ?case
  proof (cases "parse d")
    case (Inl e)
    with Cons.prems show ?thesis by simp
  next
    case (Inr calendar)
    with Cons.prems have "forEachCalendar parse obfuscate ds
        (forEachEvent obfuscate (getAllSubcomponents calendar ''vevent'') c) = Inr doc"
      by simp
    from Cons.IH [OF this] Inr show ?thesis
      by (simp add: forEachEvent_eq sourceEvents_def)
  qed
qed

lemma forEachCalendar_total:
  "list_all (\<lambda>d. \<not> isl (parse d)) calendars \<Longrightarrow>
     \<exists>doc. forEachCalendar parse obfuscate calendars c = Inr doc"
proof (induction calendars arbitrary: c)
  case Nil
  then show ?case by simp
next
  case (Cons d ds)
  then show ?case
    by (cases "parse d") simp_all
qed

lemma combineCalendars_Inr:
  "combineCalendars parse calendars obfuscate = Inr doc \<Longrightarrow>
     doc = Component ''vcalendar'' []
       (concat (map (\<lambda>d. map (processEvent obfuscate) (sourceEvents parse d)) calendars))"
  unfolding combineCalendars_def by (drule forEachCalendar_Inr) simp

lemma combineCalendars_total:
  "list_all (\<lambda>d. \<not> isl (parse d)) calendars \<Longrightarrow>
     \<exists>doc. combineCalendars parse calendars obfuscate = Inr doc"
  unfolding combineCalendars_def by (rule forEachCalendar_total)

lemma combined_subcomponents:
  "combineCalendars parse calendars obfuscate = Inr doc \<Longrightarrow>
     subcomponents doc =
       map (processEvent obfuscate) (concat (map (sourceEvents parse) calendars))"
  by (drule combineCalendars_Inr) (simp add: map_concat comp_def)

lemma name_zoneStartDate: "name (zoneStartDate e) = name e"
  by (simp add: zoneStartDate_def split: option.split val.split)

lemma subcomponents_zoneStartDate: "subcomponents (zoneStartDate e) = subcomponents e"
  by (simp add: zoneStartDate_def split: option.split val.split)

lemma name_updatePropertyWithValue: "name (updatePropertyWithValue c n v) = name c"
  by (simp add: updatePropertyWithValue_def addPropertyWithValue_def addProperty_def
      split: option.split)

lemma name_copyEssential: "name (snd (copyEssential n (e, c))) = name c"
  by (simp add: addProperty_def split: option.split)

lemma name_fold_copyEssential: "name (snd (fold copyEssential ns (e, c))) = name c"
proof (induction ns arbitrary: e c)
  case Nil
  then show ?case by simp
next
  case (Cons n ns)
  obtain e' c' where step: "copyEssential n (e, c) = (e', c')"
    by (cases "copyEssential n (e, c)")
  have "name c' = name c"
    using name_copyEssential [of n e c] step by simp
  with Cons.IH [of e' c'] step show ?case by simp
qed

lemma name_obfuscatedEvent: "name (obfuscatedEvent e) = ''vevent''"
  by (simp add: obfuscatedEvent_def name_updatePropertyWithValue name_fold_copyEssential)

lemma name_processEvent:
  "name e = ''vevent'' \<Longrightarrow> name (processEvent obfuscate e) = ''vevent''"
  by (simp add: processEvent_def name_zoneStartDate name_obfuscatedEvent)

lemma name_sourceEvents: "e \<in> set (sourceEvents parse d) \<Longrightarrow> name e = ''vevent''"
  by (auto simp: sourceEvents_def getAllSubcomponents_def split: sum.splits)

lemma getAllSubcomponents_vevent:
  "getAllSubcomponents c ''vevent'' = filter (\<lambda>s. name s = ''vevent'') (subcomponents c)"
  by (simp add: getAllSubcomponents_def)

lemma combined_events_named:
  assumes "combineCalendars parse calendars obfuscate = Inr doc"
    and "e \<in> set (subcomponents doc)"
  shows "name e = ''vevent''"
proof -
  from assms(1) have "doc = Component ''vcalendar'' []
      (concat (map (\<lambda>d. map (processEvent obfuscate) (sourceEvents parse d)) calendars))"
    by (rule combineCalendars_Inr)
  with assms(2) obtain d x where "x \<in> set (sourceEvents parse d)" "e = processEvent obfuscate x"
    by auto
  then show ?thesis
    by (simp add: name_processEvent name_sourceEvents)
qed

lemma length_concat_map:
  "length (concat (map (\<lambda>d. map f (g d)) xs)) = sum_list (map (\<lambda>d. length (g d)) xs)"
  by (induction xs) simp_all

subsection \<open>Empty input, the calling layer, and the shape of the result\<close>

text \<open>
  C9. Called with no source at all, combineCalendars does not fail: it returns the empty
  \<^verbatim>\<open>vcalendar\<close> component, for either value of obfuscate. The rule that there are
  at least two sources is enforced by \<^verbatim>\<open>main\<close> alone: with fewer than two URLs (and
  a bucket name set) it answers with status 500 and never calls combineCalendars.
\<close>

theorem empty_sources_give_empty_vcalendar:
  "combineCalendars parse [] obfuscate = Inr (Component ''vcalendar'' [] []) \<and>
   (length urls < 2 \<longrightarrow>
      main parse downloadCalendar uploadToSpaces (Some (b # bucket)) urls outputKey obfuscate =
        \<lparr>body = ''Error: At least two calendar URLs are required'', statusCode = 500\<rparr>)"
  by (simp add: combineCalendars_def main_def mainBody_def)

theorem empty_sources_give_empty_vcalendar_witness:
  "combineCalendars exampleParse [] True = Inr (Component ''vcalendar'' [] []) \<and>
   main exampleParse (\<lambda>url. Inr ''A'') (\<lambda>c bucket key. Inr ()) (Some ''bucket'')
       [''https://example.org/a.ics''] ''combined.ics'' True =
     \<lparr>body = ''Error: At least two calendar URLs are required'', statusCode = 500\<rparr>"
  using empty_sources_give_empty_vcalendar [of exampleParse True "[''https://example.org/a.ics'']"
      "\<lambda>url. Inr ''A''" "\<lambda>c bucket key. Inr ()" "CHR ''b''" "''ucket''" "''combined.ics''"]
  by simp

text \<open>
  C10. The combined document is the bare \<^verbatim>\<open>vcalendar\<close> component that line 85
  creates: it has no property of its own (no product identifier, no version), and
  everything appended to it is a \<^verbatim>\<open>vevent\<close> subcomponent.
\<close>

theorem combined_document_has_no_properties:
  assumes "combineCalendars parse calendars obfuscate = Inr doc"
  shows "name doc = ''vcalendar'' \<and> properties doc = [] \<and>
    list_all (\<lambda>e. name e = ''vevent'') (subcomponents doc)"
proof -
  have doc: "doc = Component ''vcalendar'' []
      (concat (map (\<lambda>d. map (processEvent obfuscate) (sourceEvents parse d)) calendars))"
    using assms by (rule combineCalendars_Inr)
  have "name e = ''vevent''" if "e \<in> set (subcomponents doc)" for e
  proof -
    from that doc obtain d x where "x \<in> set (sourceEvents parse d)" "e = processEvent obfuscate x"
      by auto
    then show ?thesis
      by (simp add: name_processEvent name_sourceEvents)
  qed
  with doc show ?thesis
    by (simp add: list_all_iff)
qed

theorem combined_document_has_no_properties_witness:
  "\<exists>doc. combineCalendars exampleParse [''A'', ''B''] False = Inr doc \<and>
     name doc = ''vcalendar'' \<and> properties doc = [] \<and>
     list_all (\<lambda>e. name e = ''vevent'') (subcomponents doc)"
  using combined_document_has_no_properties [OF example_AB_plain] example_AB_plain
  by blast

subsection \<open>Count, order and errors\<close>

text \<open>
  C2. When every source text parses, combineCalendars returns a document whose number of
  \<^verbatim>\<open>vevent\<close> components is the sum, over the sources, of the number of events taken
  from each, with obfuscate set or not; the document has no other subcomponent. No event
  is dropped and none is duplicated.
\<close>

theorem event_count_is_sum_over_sources:
  assumes "list_all (\<lambda>d. \<not> isl (parse d)) calendars"
  shows "\<exists>doc. combineCalendars parse calendars obfuscate = Inr doc \<and>
    length (getAllSubcomponents doc ''vevent'') =
      sum_list (map (\<lambda>d. length (sourceEvents parse d)) calendars) \<and>
    length (subcomponents doc) = length (getAllSubcomponents doc ''vevent'')"
proof -
  from assms obtain doc where run: "combineCalendars parse calendars obfuscate = Inr doc"
    using combineCalendars_total by blast
  have all: "getAllSubcomponents doc ''vevent'' = subcomponents doc"
    unfolding getAllSubcomponents_vevent
    using combined_events_named [OF run] by (simp add: filter_id_conv)
  have "subcomponents doc =
      concat (map (\<lambda>d. map (processEvent obfuscate) (sourceEvents parse d)) calendars)"
    using combineCalendars_Inr [OF run] by simp
  then have "length (subcomponents doc) =
      sum_list (map (\<lambda>d. length (sourceEvents parse d)) calendars)"
    by (simp add: length_concat_map)
  with run all show ?thesis by simp
qed

theorem event_count_is_sum_over_sources_witness:
  "\<exists>doc. combineCalendars exampleParse [''A'', ''B''] True = Inr doc \<and>
     length (getAllSubcomponents doc ''vevent'') = 2 \<and>
     length (subcomponents doc) = length (getAllSubcomponents doc ''vevent'')"
  using event_count_is_sum_over_sources [of exampleParse "[''A'', ''B'']" True]
  by (auto simp: example_wellformed example_sourceEvents)

text \<open>
  C8. The events of the combined document are the processed events of the first source,
  in the order they have there, followed by those of the second source, and so on; the
  events taken from a source are its \<^verbatim>\<open>vevent\<close> subcomponents in their order in the
  source. Nothing is sorted.
\<close>

theorem events_in_concatenation_order:
  assumes "combineCalendars parse calendars obfuscate = Inr doc"
  shows "subcomponents doc =
      concat (map (\<lambda>d. map (processEvent obfuscate) (sourceEvents parse d)) calendars) \<and>
    (\<forall>d calendar. parse d = Inr calendar \<longrightarrow>
       sourceEvents parse d = filter (\<lambda>s. name s = ''vevent'') (subcomponents calendar))"
  using combineCalendars_Inr [OF assms]
  by (simp add: sourceEvents_def getAllSubcomponents_vevent)

theorem events_in_concatenation_order_witness:
  "\<exists>doc. combineCalendars exampleParse [''B'', ''A''] False = Inr doc \<and>
     subcomponents doc = [processEvent False eventB, processEvent False eventA]"
proof -
  have "list_all (\<lambda>d. \<not> isl (exampleParse d)) [''B'', ''A'']"
    by (simp add: example_wellformed)
  then obtain doc where run: "combineCalendars exampleParse [''B'', ''A''] False = Inr doc"
    using combineCalendars_total by blast
  from events_in_concatenation_order [OF run]
  have "subcomponents doc = [processEvent False eventB, processEvent False eventA]"
    by (simp add: example_sourceEvents)
  with run show ?thesis by blast
qed

subsection \<open>The obfuscated event\<close>

lemma map_filter_cong_set:
  "(\<And>x. x \<in> set xs \<Longrightarrow> f x = g x) \<Longrightarrow> List.map_filter f xs = List.map_filter g xs"
  by (induction xs) (auto simp: List.map_filter_simps split: option.split)

lemma find_remove1_other:
  "\<not> P p \<Longrightarrow> find P (remove1 p ps) = find P ps"
  by (induction ps) auto

lemma find_named_Some: "find (\<lambda>p. propName p = n) ps = Some q \<Longrightarrow> propName q = n"
  by (induction ps) (auto split: if_splits)

lemma fold_copyEssential:
  assumes "[] \<notin> set ns" and "distinct ns"
  shows "snd (fold copyEssential ns (e, c)) =
    Component (name c)
      (properties c @ List.map_filter (\<lambda>n. find (\<lambda>p. propName p = n) (properties e)) ns)
      (subcomponents c)"
  using assms
proof (induction ns arbitrary: e c)
  case Nil
  then show ?case by (simp add: List.map_filter_simps)
next
  case (Cons n ns)
  from Cons.prems have ns: "[] \<notin> set ns" "distinct ns" and n: "n \<noteq> []" "n \<notin> set ns"
    by auto
  show ?case
  proof (cases "find (\<lambda>p. propName p = n) (properties e)")
    case None
    then show ?thesis
      using Cons.IH [OF ns, of e c] n by (simp add: getFirstProperty_def List.map_filter_simps)
  next
    case (Some q)
    then have q: "propName q = n" by (rule find_named_Some)
    have same: "List.map_filter (\<lambda>m. find (\<lambda>p. propName p = m) (remove1 q (properties e))) ns =
        List.map_filter (\<lambda>m. find (\<lambda>p. propName p = m) (properties e)) ns"
    proof (rule map_filter_cong_set)
      fix m assume "m \<in> set ns"
      with n q have "\<not> propName q = m" by auto
      then show "find (\<lambda>p. propName p = m) (remove1 q (properties e)) =
          find (\<lambda>p. propName p = m) (properties e)"
        by (rule find_remove1_other)
    qed
    from Some n show ?thesis
      using Cons.IH [OF ns, of "removeProperty e q" "addProperty c q"]
      by (simp add: getFirstProperty_def List.map_filter_simps same removeProperty_def
          addProperty_def)
  qed
qed

lemma propName_firstEssentials:
  "p \<in> set (List.map_filter (\<lambda>n. find (\<lambda>p. propName p = n) ps) ns) \<Longrightarrow> propName p \<in> set ns"
  by (induction ns) (auto simp: List.map_filter_simps split: option.splits dest: find_named_Some)

lemma find_None_if_no_name:
  "n \<notin> propName ` set ps \<Longrightarrow> find (\<lambda>p. propName p = n) ps = None"
  by (induction ps) auto

lemma obfuscatedEvent_eq:
  "obfuscatedEvent event = Component ''vevent'' (firstEssentials event @ [busySummary]) []"
proof -
  have fold: "snd (fold copyEssential essentialProps (event, Component ''vevent'' [] [])) =
      Component ''vevent'' (firstEssentials event) []"
    by (subst fold_copyEssential) (simp_all add: essentialProps_def firstEssentials_def)
  have "''summary'' \<notin> propName ` set (firstEssentials event)"
  proof
    assume "''summary'' \<in> propName ` set (firstEssentials event)"
    then obtain p where p: "p \<in> set (firstEssentials event)" and "propName p = ''summary''"
      by (auto simp: image_iff)
    from p have "propName p \<in> set essentialProps"
      unfolding firstEssentials_def by (rule propName_firstEssentials)
    with \<open>propName p = ''summary''\<close> show False
      by (simp add: essentialProps_def)
  qed
  then have "find (\<lambda>p. propName p = ''summary'') (firstEssentials event) = None"
    by (rule find_None_if_no_name)
  then show ?thesis
    by (simp add: obfuscatedEvent_def fold updatePropertyWithValue_def getFirstProperty_def
        addPropertyWithValue_def addProperty_def setValue_def busySummary_def)
qed

lemma find_append:
  "find P (xs @ ys) = (case find P xs of None \<Rightarrow> find P ys | Some x \<Rightarrow> Some x)"
  by (induction xs) auto

lemma find_map_filter_None:
  "n \<notin> set ns \<Longrightarrow>
     find (\<lambda>p. propName p = n) (List.map_filter (\<lambda>m. find (\<lambda>p. propName p = m) ps) ns) = None"
  by (rule find_None_if_no_name) (auto dest: propName_firstEssentials)

lemma find_map_filter_first:
  "n \<in> set ns \<Longrightarrow>
     find (\<lambda>p. propName p = n) (List.map_filter (\<lambda>m. find (\<lambda>p. propName p = m) ps) ns) =
     find (\<lambda>p. propName p = n) ps"
proof (induction ns)
  case Nil
  then show ?case by simp
next
  case (Cons m ns)
  show ?case
  proof (cases "find (\<lambda>p. propName p = m) ps")
    case None
    show ?thesis
    proof (cases "n \<in> set ns")
      case True
      with None Cons.IH show ?thesis by simp
    next
      case False
      with Cons.prems have "n = m" by simp
      with None False show ?thesis by (simp add: find_map_filter_None)
    qed
  next
    case (Some q)
    then have q: "propName q = m" by (rule find_named_Some)
    show ?thesis
    proof (cases "n = m")
      case True
      with Some q show ?thesis by simp
    next
      case False
      with Cons.prems have "n \<in> set ns" by simp
      with Some q False Cons.IH show ?thesis by simp
    qed
  qed
qed

lemma getFirstProperty_obfuscatedEvent:
  "n \<in> set essentialProps \<Longrightarrow>
     getFirstProperty (obfuscatedEvent event) n = getFirstProperty event n"
proof -
  assume n: "n \<in> set essentialProps"
  then have "n \<noteq> []" "n \<noteq> ''summary''"
    by (auto simp: essentialProps_def)
  with n show ?thesis
    by (simp add: obfuscatedEvent_eq getFirstProperty_def find_append firstEssentials_def
        find_map_filter_first busySummary_def split: option.split)
qed

lemma firstEssentials_obfuscatedEvent:
  "firstEssentials (obfuscatedEvent event) = firstEssentials event"
proof -
  have "List.map_filter
        (\<lambda>n. find (\<lambda>p. propName p = n) (properties (obfuscatedEvent event))) essentialProps =
      List.map_filter (\<lambda>n. find (\<lambda>p. propName p = n) (properties event)) essentialProps"
  proof (rule map_filter_cong_set)
    fix n assume n: "n \<in> set essentialProps"
    then have "n \<noteq> []" by (auto simp: essentialProps_def)
    with getFirstProperty_obfuscatedEvent [OF n]
    show "find (\<lambda>p. propName p = n) (properties (obfuscatedEvent event)) =
        find (\<lambda>p. propName p = n) (properties event)"
      by (simp add: getFirstProperty_def)
  qed
  then show ?thesis by (simp add: firstEssentials_def)
qed

subsection \<open>The zone of the start date\<close>

lemma setZoneFirst_idem: "setZoneFirst (setZoneFirst vs) = setZoneFirst vs"
  by (induction vs rule: setZoneFirst.induct) simp_all

lemma zoneStartDate_eq:
  "zoneStartDate e =
     Component (name e) (zoneFirstNamed ''dtstart'' (properties e)) (subcomponents e)"
proof -
  have absent: "find (\<lambda>p. propName p = n) ps = None \<Longrightarrow> zoneFirstNamed n ps = ps" for n ps
    by (induction ps) (auto split: if_splits)
  have keep: "find (\<lambda>p. propName p = n) ps = Some q \<Longrightarrow>
      setZoneFirst (propValues q) = propValues q \<Longrightarrow> zoneFirstNamed n ps = ps" for n ps q
    by (induction ps) (auto split: if_splits)
  show ?thesis
  proof (cases "find (\<lambda>p. propName p = ''dtstart'') (properties e)")
    case None
    then show ?thesis
      by (simp add: zoneStartDate_def getFirstPropertyValue_def getFirstProperty_def absent)
  next
    case (Some q)
    show ?thesis
    proof (cases "propValues q")
      case Nil
      with Some show ?thesis
        by (simp add: zoneStartDate_def getFirstPropertyValue_def getFirstProperty_def
            getFirstValue_def keep [OF Some])
    next
      case (Cons v vs)
      show ?thesis
      proof (cases v)
        case (Time s z)
        with Some Cons show ?thesis
          by (cases z)
            (simp_all add: zoneStartDate_def getFirstPropertyValue_def getFirstProperty_def
              getFirstValue_def keep [OF Some])
      next
        case (Other t)
        with Some Cons show ?thesis
          by (simp add: zoneStartDate_def getFirstPropertyValue_def getFirstProperty_def
              getFirstValue_def keep [OF Some])
      qed
    qed
  qed
qed

lemma map_propName_zoneFirstNamed: "map propName (zoneFirstNamed n ps) = map propName ps"
  by (induction ps) simp_all


lemma zoneFirstNamed_idem: "zoneFirstNamed n (zoneFirstNamed n ps) = zoneFirstNamed n ps"
  by (induction ps) (simp_all add: setZoneFirst_idem)

lemma zoneFirstNamed_absent:
  "n \<notin> propName ` set ps \<Longrightarrow> zoneFirstNamed n ps = ps"
  by (induction ps) auto

lemma zoneFirstNamed_append_other:
  "n \<notin> propName ` set ys \<Longrightarrow> zoneFirstNamed n (xs @ ys) = zoneFirstNamed n xs @ ys"
  by (induction xs) (simp_all add: zoneFirstNamed_absent)

lemma find_zoneFirstNamed:
  "find (\<lambda>p. propName p = m) (zoneFirstNamed n ps) =
     (if m = n
      then map_option (\<lambda>p. p\<lparr>propValues := setZoneFirst (propValues p)\<rparr>)
             (find (\<lambda>p. propName p = n) ps)
      else find (\<lambda>p. propName p = m) ps)"
  by (induction ps) auto

lemma zoneStartDate_idem: "zoneStartDate (zoneStartDate e) = zoneStartDate e"
  by (simp add: zoneStartDate_eq zoneFirstNamed_idem)


lemma map_filter_zoneFirstNamed:
  "distinct ns \<Longrightarrow>
     List.map_filter (\<lambda>m. find (\<lambda>p. propName p = m) (zoneFirstNamed n ps)) ns =
     zoneFirstNamed n (List.map_filter (\<lambda>m. find (\<lambda>p. propName p = m) ps) ns)"
proof (induction ns)
  case Nil
  then show ?case by simp
next
  case (Cons m ns)
  then have IH: "List.map_filter (\<lambda>m. find (\<lambda>p. propName p = m) (zoneFirstNamed n ps)) ns =
      zoneFirstNamed n (List.map_filter (\<lambda>m. find (\<lambda>p. propName p = m) ps) ns)"
    and m: "m \<notin> set ns"
    by simp_all
  show ?case
  proof (cases "m = n")
    case True
    with m have "n \<notin> propName ` set (List.map_filter (\<lambda>m. find (\<lambda>p. propName p = m) ps) ns)"
      by (auto dest: propName_firstEssentials)
    then have rest: "zoneFirstNamed n (List.map_filter (\<lambda>m. find (\<lambda>p. propName p = m) ps) ns) =
        List.map_filter (\<lambda>m. find (\<lambda>p. propName p = m) ps) ns"
      by (rule zoneFirstNamed_absent)
    show ?thesis
    proof (cases "find (\<lambda>p. propName p = n) ps")
      case None
      with True IH rest show ?thesis by (simp add: find_zoneFirstNamed)
    next
      case (Some q)
      then have "propName q = n" by (rule find_named_Some)
      with True Some IH rest show ?thesis by (simp add: find_zoneFirstNamed)
    qed
  next
    case False
    show ?thesis
    proof (cases "find (\<lambda>p. propName p = m) ps")
      case None
      with False IH show ?thesis by (simp add: find_zoneFirstNamed)
    next
      case (Some q)
      then have "propName q = m" by (rule find_named_Some)
      with False Some IH show ?thesis by (simp add: find_zoneFirstNamed)
    qed
  qed
qed

lemma obfuscatedEvent_zoneStartDate:
  "obfuscatedEvent (zoneStartDate e) = zoneStartDate (obfuscatedEvent e)"
proof -
  have "distinct essentialProps"
    by (simp add: essentialProps_def)
  then have "firstEssentials (zoneStartDate e) = zoneFirstNamed ''dtstart'' (firstEssentials e)"
    by (simp add: firstEssentials_def zoneStartDate_eq map_filter_zoneFirstNamed)
  then show ?thesis
    by (simp add: obfuscatedEvent_eq zoneStartDate_eq zoneFirstNamed_append_other
        busySummary_def)
qed








lemma properties_processEvent_True:
  "properties (processEvent True event) =
     zoneFirstNamed ''dtstart'' (firstEssentials event) @ [busySummary]"
  by (simp add: processEvent_def zoneStartDate_eq obfuscatedEvent_eq
      zoneFirstNamed_append_other busySummary_def)

lemma propName_zoneFirstNamed_set:
  "p \<in> set (zoneFirstNamed n ps) \<Longrightarrow> propName p \<in> propName ` set ps"
  using map_propName_zoneFirstNamed [of n ps]
  by (metis image_eqI image_set)

subsection \<open>Redaction\<close>

text \<open>
  C1. With obfuscate set, the event built for a source event (lines 98 to 113) holds
  exactly, for each name of dtstart, dtend, duration, rrule, uid in that order, the first
  property of that name in the source event when there is one (a name the source lacks is
  skipped), and then a summary property with the value BUSY; it has no subcomponent. The
  events of the combined document are these events, one per source event and in order,
  after the start date has been given its zone (C4), which changes no property name. So an
  appended event holds no property under any other name: no location, description,
  attendee, organizer, categories or X- property.
\<close>

theorem obfuscated_event_holds_only_essentials:
  assumes "combineCalendars parse calendars True = Inr doc"
  shows "obfuscatedEvent event = Component ''vevent'' (firstEssentials event @ [busySummary]) [] \<and>
    subcomponents doc =
      map (\<lambda>event. zoneStartDate (obfuscatedEvent event))
        (concat (map (sourceEvents parse) calendars)) \<and>
    properties (zoneStartDate (obfuscatedEvent event)) =
      zoneFirstNamed ''dtstart'' (firstEssentials event) @ [busySummary] \<and>
    map propName (properties (zoneStartDate (obfuscatedEvent event))) =
      map propName (firstEssentials event) @ [''summary''] \<and>
    (\<forall>e' \<in> set (subcomponents doc). name e' = ''vevent'' \<and> subcomponents e' = [] \<and>
       (\<forall>p \<in> set (properties e'). propName p \<in> set essentialProps \<or> p = busySummary))"
proof -
  have zoned: "properties (zoneStartDate (obfuscatedEvent event)) =
      zoneFirstNamed ''dtstart'' (firstEssentials event) @ [busySummary]"
    using properties_processEvent_True [of event] by (simp add: processEvent_def)
  have subs: "subcomponents doc =
      map (\<lambda>event. zoneStartDate (obfuscatedEvent event))
        (concat (map (sourceEvents parse) calendars))"
    using combined_subcomponents [OF assms] by (simp add: processEvent_def)
  have names: "map propName (properties (zoneStartDate (obfuscatedEvent event))) =
      map propName (firstEssentials event) @ [''summary'']"
    by (simp add: zoneStartDate_eq map_propName_zoneFirstNamed obfuscatedEvent_eq
        busySummary_def)
  have only: "name e' = ''vevent'' \<and> subcomponents e' = [] \<and>
      (\<forall>p \<in> set (properties e'). propName p \<in> set essentialProps \<or> p = busySummary)"
    if "e' \<in> set (subcomponents doc)" for e'
  proof -
    from that subs obtain x where e': "e' = processEvent True x"
      by (auto simp: processEvent_def)
    have "propName p \<in> set essentialProps \<or> p = busySummary" if "p \<in> set (properties e')" for p
    proof (cases "p = busySummary")
      case True
      then show ?thesis by simp
    next
      case False
      with that e' have "p \<in> set (zoneFirstNamed ''dtstart'' (firstEssentials x))"
        by (simp add: properties_processEvent_True)
      then have "propName p \<in> propName ` set (firstEssentials x)"
        by (rule propName_zoneFirstNamed_set)
      then show ?thesis
        unfolding firstEssentials_def by (auto dest: propName_firstEssentials)
    qed
    with e' show ?thesis
      by (simp add: processEvent_def zoneStartDate_eq obfuscatedEvent_eq)
  qed
  from subs zoned names only show ?thesis
    by (simp add: obfuscatedEvent_eq)
qed

theorem obfuscated_event_holds_only_essentials_witness:
  "obfuscatedEvent eventB =
     Component ''vevent''
       [timeProp ''dtstart'' ''2024-01-02T09:00:00'' None,
        timeProp ''dtend'' ''2024-01-02T09:30:00'' None,
        textProp ''rrule'' ''FREQ=WEEKLY'',
        textProp ''uid'' ''b-1'',
        textProp ''summary'' ''BUSY''] [] \<and>
   (\<exists>doc. combineCalendars exampleParse [''A'', ''B''] True = Inr doc \<and>
      subcomponents doc =
        [zoneStartDate (obfuscatedEvent eventA), zoneStartDate (obfuscatedEvent eventB)])"
proof -
  have "firstEssentials eventB @ [busySummary] =
      [timeProp ''dtstart'' ''2024-01-02T09:00:00'' None,
       timeProp ''dtend'' ''2024-01-02T09:30:00'' None,
       textProp ''rrule'' ''FREQ=WEEKLY'',
       textProp ''uid'' ''b-1'',
       textProp ''summary'' ''BUSY'']"
    by (simp add: firstEssentials_def essentialProps_def busySummary_def example_defs)
  with obfuscated_event_holds_only_essentials [OF example_AB_busy, of eventB] example_AB_busy
  show ?thesis
    by (simp add: example_sourceEvents)
qed

text \<open>
  C6. Redaction is idempotent: redacting a redacted event gives the same event again, for
  the redaction alone (lines 98 to 113) and for the whole step on one event with obfuscate
  set (redaction, then the zone of the start date).
\<close>

theorem redaction_is_idempotent:
  "obfuscatedEvent (obfuscatedEvent event) = obfuscatedEvent event \<and>
   processEvent True (processEvent True event) = processEvent True event"
proof -
  have "obfuscatedEvent (obfuscatedEvent event) =
      Component ''vevent'' (firstEssentials (obfuscatedEvent event) @ [busySummary]) []"
    by (rule obfuscatedEvent_eq)
  also have "\<dots> = Component ''vevent'' (firstEssentials event @ [busySummary]) []"
    by (simp add: firstEssentials_obfuscatedEvent)
  also have "\<dots> = obfuscatedEvent event"
    by (rule obfuscatedEvent_eq [symmetric])
  finally have once: "obfuscatedEvent (obfuscatedEvent event) = obfuscatedEvent event" .
  have "processEvent True (processEvent True event) =
      zoneStartDate (zoneStartDate (obfuscatedEvent (obfuscatedEvent event)))"
    by (simp add: processEvent_def obfuscatedEvent_zoneStartDate)
  with once show ?thesis
    by (simp add: processEvent_def zoneStartDate_idem)
qed

theorem redaction_is_idempotent_witness:
  "obfuscatedEvent (obfuscatedEvent eventB) = obfuscatedEvent eventB \<and>
   processEvent True (processEvent True eventB) = processEvent True eventB"
  using redaction_is_idempotent [of eventB] .

subsection \<open>Which events are taken from a source\<close>




subsection \<open>The start date\<close>




subsection \<open>No error on sources that parse\<close>



section \<open>Properties of the code on objects\<close>

subsection \<open>What each library call changes\<close>

lemmas heap_defs =
  newComponent_def newProperty_def propertiesOf_def subcomponentsOf_def
  getAllSubcomponentsH_def getFirstPropertyH_def getFirstPropertyValueH_def
  removePropertyH_def addPropertyH_def setValueH_def addPropertyWithValueH_def
  updatePropertyWithValueH_def removeSubcomponentH_def addSubcomponentH_def
  copyEssentialH_def obfuscatedEventH_def zoneStartDateH_def processEventH_def
  forEachCalendarH_def combineCalendarsH_def readProperty_def

lemma sameShape_refl: "sameShape h h"
  by (simp add: sameShape_def)

lemma sameShape_trans: "sameShape h h' \<Longrightarrow> sameShape h' h'' \<Longrightarrow> sameShape h h''"
  by (simp add: sameShape_def)

lemma wellFormed_ownsProperties: "wellFormed h \<Longrightarrow> ownsProperties h"
  by (simp add: wellFormed_def ownsProperties_def)

lemma owner_unique:
  assumes "ownsProperties h" "c < nextComponent h" "c' < nextComponent h"
    and "p \<in> set (propertiesOf h c)" "p \<in> set (propertiesOf h c')"
  shows "c = c'"
proof -
  from assms(1,2,4) have "propertyParent (propertyAt h p) = Some c"
    by (simp add: ownsProperties_def)
  moreover from assms(1,3,5) have "propertyParent (propertyAt h p) = Some c'"
    by (simp add: ownsProperties_def)
  ultimately show ?thesis by simp
qed

lemma removePropertyH_shape: "sameShape h (removePropertyH h c p)"
  by (simp add: sameShape_def removePropertyH_def subcomponentsOf_def)

lemma removePropertyH_nextProperty: "nextProperty (removePropertyH h c p) = nextProperty h"
  by (simp add: removePropertyH_def)

lemma removePropertyH_properties:
  "propertiesOf (removePropertyH h c p) c' =
     (if c' = c then remove1 p (propertiesOf h c) else propertiesOf h c')"
  by (simp add: removePropertyH_def propertiesOf_def remove1_idem)

lemma removePropertyH_parent:
  "propertyParent (propertyAt (removePropertyH h c p) q) =
     (if q = p \<and> p \<in> set (propertiesOf h c) then None else propertyParent (propertyAt h q))"
  by (simp add: removePropertyH_def)

lemma detach_shape: "sameShape h (detach h p)"
  by (simp add: detach_def sameShape_refl removePropertyH_shape split: option.split)

lemma detach_nextProperty: "nextProperty (detach h p) = nextProperty h"
  by (simp add: detach_def removePropertyH_nextProperty split: option.split)

lemma detach_nextComponent: "nextComponent (detach h p) = nextComponent h"
  using detach_shape [of h p] by (simp add: sameShape_def)

lemma detach_properties_subset:
  "set (propertiesOf (detach h p) c) \<subseteq> set (propertiesOf h c)"
  using set_remove1_subset [of p "propertiesOf h c"]
  by (auto simp: detach_def removePropertyH_properties split: option.splits)

lemma detach_properties_other:
  "q \<in> set (propertiesOf h c) \<Longrightarrow> q \<noteq> p \<Longrightarrow> q \<in> set (propertiesOf (detach h p) c)"
  by (auto simp: detach_def removePropertyH_properties split: option.splits)

lemma detach_owns:
  assumes "ownsProperties h"
  shows "ownsProperties (detach h p)"
    and "\<forall>c < nextComponent h. p \<notin> set (propertiesOf (detach h p) c)"
proof -
  show "ownsProperties (detach h p)"
    unfolding ownsProperties_def
  proof (intro allI impI conjI ballI)
    fix c assume c: "c < nextComponent (detach h p)"
    then have c': "c < nextComponent h" by (simp add: detach_nextComponent)
    with assms have d: "distinct (propertiesOf h c)"
      by (simp add: ownsProperties_def)
    then show "distinct (propertiesOf (detach h p) c)"
      by (simp add: detach_def removePropertyH_properties split: option.split)
    fix q assume q: "q \<in> set (propertiesOf (detach h p) c)"
    then have q': "q \<in> set (propertiesOf h c)"
      using detach_properties_subset by blast
    with assms c' have own: "q < nextProperty h" "propertyParent (propertyAt h q) = Some c"
      by (simp_all add: ownsProperties_def)
    from own(1) show "q < nextProperty (detach h p)"
      by (simp add: detach_nextProperty)
    have "q \<noteq> p"
    proof
      assume "q = p"
      with own(2) q d show False
        by (simp add: detach_def removePropertyH_properties)
    qed
    with own(2) show "propertyParent (propertyAt (detach h p) q) = Some c"
      by (simp add: detach_def removePropertyH_parent split: option.split)
  qed
  show "\<forall>c < nextComponent h. p \<notin> set (propertiesOf (detach h p) c)"
  proof (intro allI impI notI)
    fix c assume c: "c < nextComponent h" and p: "p \<in> set (propertiesOf (detach h p) c)"
    then have "p \<in> set (propertiesOf h c)"
      using detach_properties_subset by blast
    with assms c have "propertyParent (propertyAt h p) = Some c" "distinct (propertiesOf h c)"
      by (simp_all add: ownsProperties_def)
    with p show False
      by (simp add: detach_def removePropertyH_properties)
  qed
qed

lemma addPropertyH_detach:
  "addPropertyH h c p =
     (detach h p)\<lparr>componentAt := (componentAt (detach h p))(c :=
         (componentAt (detach h p) c)\<lparr>componentProperties := propertiesOf (detach h p) c @ [p]\<rparr>),
       propertyAt := (propertyAt (detach h p))(p :=
         (propertyAt (detach h p) p)\<lparr>propertyParent := Some c\<rparr>)\<rparr>"
  by (simp add: addPropertyH_def detach_def Let_def)

lemma addPropertyH_shape: "sameShape h (addPropertyH h c p)"
proof -
  have "sameShape (detach h p) (addPropertyH h c p)"
    by (simp add: addPropertyH_detach sameShape_def subcomponentsOf_def)
  with detach_shape show ?thesis by (rule sameShape_trans)
qed

lemma addPropertyH_nextProperty: "nextProperty (addPropertyH h c p) = nextProperty h"
  by (simp add: addPropertyH_detach detach_nextProperty)

lemma addPropertyH_owns:
  assumes "ownsProperties h" "c < nextComponent h" "p < nextProperty h"
  shows "ownsProperties (addPropertyH h c p)"
proof -
  let ?d = "detach h p"
  have d: "ownsProperties ?d" and free: "\<forall>c < nextComponent h. p \<notin> set (propertiesOf ?d c)"
    using detach_owns [OF assms(1)] by blast+
  have props: "propertiesOf (addPropertyH h c p) c' =
      (if c' = c then propertiesOf ?d c @ [p] else propertiesOf ?d c')" for c'
    by (simp add: addPropertyH_detach propertiesOf_def)
  have parent: "propertyParent (propertyAt (addPropertyH h c p) q) =
      (if q = p then Some c else propertyParent (propertyAt ?d q))" for q
    by (simp add: addPropertyH_detach)
  have nc: "nextComponent (addPropertyH h c p) = nextComponent h"
    using addPropertyH_shape [of h c p] by (simp add: sameShape_def)
  show ?thesis
    unfolding ownsProperties_def nc addPropertyH_nextProperty
  proof (intro allI impI conjI ballI)
    fix c' assume c': "c' < nextComponent h"
    with d have dist: "distinct (propertiesOf ?d c')"
      by (simp add: ownsProperties_def detach_nextComponent)
    with free c' assms(2) show "distinct (propertiesOf (addPropertyH h c p) c')"
      by (auto simp: props)
    fix q assume q: "q \<in> set (propertiesOf (addPropertyH h c p) c')"
    show "q < nextProperty h"
    proof (cases "q = p")
      case True
      with assms(3) show ?thesis by simp
    next
      case False
      with q have "q \<in> set (propertiesOf ?d c')"
        by (simp add: props split: if_splits)
      with d c' show ?thesis
        by (simp add: ownsProperties_def detach_nextComponent detach_nextProperty)
    qed
    show "propertyParent (propertyAt (addPropertyH h c p) q) = Some c'"
    proof (cases "q = p")
      case True
      with q free c' have "c' = c"
        by (auto simp: props split: if_splits)
      with True show ?thesis by (simp add: parent)
    next
      case False
      with q have "q \<in> set (propertiesOf ?d c')"
        by (simp add: props split: if_splits)
      with d c' False show ?thesis
        by (simp add: ownsProperties_def detach_nextComponent parent)
    qed
  qed
qed

lemma setValueH_shape: "sameShape h (setValueH h p v)"
  by (simp add: sameShape_def setValueH_def subcomponentsOf_def)

lemma setValueH_owns: "ownsProperties h \<Longrightarrow> ownsProperties (setValueH h p v)"
  by (simp add: ownsProperties_def setValueH_def propertiesOf_def)

lemma newProperty_shape: "sameShape h (fst (newProperty h n))"
  by (simp add: sameShape_def newProperty_def subcomponentsOf_def)

lemma newProperty_owns:
  assumes "ownsProperties h"
  shows "ownsProperties (fst (newProperty h n))"
  unfolding ownsProperties_def
proof (intro allI impI conjI ballI)
  fix c assume "c < nextComponent (fst (newProperty h n))"
  then have c: "c < nextComponent h" by (simp add: newProperty_def)
  have props: "propertiesOf (fst (newProperty h n)) c = propertiesOf h c"
    by (simp add: newProperty_def propertiesOf_def)
  from assms c show "distinct (propertiesOf (fst (newProperty h n)) c)"
    by (simp add: props ownsProperties_def)
  fix p assume "p \<in> set (propertiesOf (fst (newProperty h n)) c)"
  with assms c have p: "p < nextProperty h" "propertyParent (propertyAt h p) = Some c"
    by (simp_all add: props ownsProperties_def)
  then show "p < nextProperty (fst (newProperty h n))"
    and "propertyParent (propertyAt (fst (newProperty h n)) p) = Some c"
    by (simp_all add: newProperty_def)
qed

lemma getFirstPropertyH_member:
  "getFirstPropertyH h c n = Some p \<Longrightarrow> p \<in> set (propertiesOf h c)"
  by (auto simp: getFirstPropertyH_def find_Some_iff split: if_splits list.splits)

lemma updatePropertyWithValueH_shape: "sameShape h (updatePropertyWithValueH h c n v)"
proof (cases "getFirstPropertyH h c n")
  case None
  have "sameShape h (setValueH (fst (newProperty h n)) (nextProperty h) v)"
    using newProperty_shape setValueH_shape by (rule sameShape_trans)
  then have "sameShape h
      (addPropertyH (setValueH (fst (newProperty h n)) (nextProperty h) v) c (nextProperty h))"
    using addPropertyH_shape by (rule sameShape_trans)
  with None show ?thesis
    by (simp add: updatePropertyWithValueH_def addPropertyWithValueH_def newProperty_def)
next
  case (Some p)
  then show ?thesis
    by (simp add: updatePropertyWithValueH_def setValueH_shape)
qed

lemma updatePropertyWithValueH_owns:
  assumes "ownsProperties h" "c < nextComponent h"
  shows "ownsProperties (updatePropertyWithValueH h c n v)"
proof (cases "getFirstPropertyH h c n")
  case None
  let ?h1 = "fst (newProperty h n)"
  let ?h2 = "setValueH ?h1 (nextProperty h) v"
  have "ownsProperties ?h2"
    using assms(1) by (simp add: newProperty_owns setValueH_owns)
  moreover have "c < nextComponent ?h2" "nextProperty h < nextProperty ?h2"
    using assms(2) by (simp_all add: setValueH_def newProperty_def)
  ultimately have "ownsProperties (addPropertyH ?h2 c (nextProperty h))"
    by (rule addPropertyH_owns)
  with None show ?thesis
    by (simp add: updatePropertyWithValueH_def addPropertyWithValueH_def newProperty_def)
next
  case (Some p)
  with assms(1) show ?thesis
    by (simp add: updatePropertyWithValueH_def setValueH_owns)
qed

lemma zoneStartDateH_shape: "sameShape h (zoneStartDateH h e)"
  by (simp add: sameShape_def zoneStartDateH_def subcomponentsOf_def
      split: option.split val.split)

lemma zoneStartDateH_owns: "ownsProperties h \<Longrightarrow> ownsProperties (zoneStartDateH h e)"
  by (simp add: ownsProperties_def zoneStartDateH_def propertiesOf_def
      split: option.split val.split)

lemma copyEssentialH_shape: "sameShape h (copyEssentialH event obfuscated n h)"
  by (simp add: copyEssentialH_def sameShape_refl addPropertyH_shape split: option.split)

lemma copyEssentialH_owns:
  assumes "ownsProperties h" "event < nextComponent h" "obfuscated < nextComponent h"
  shows "ownsProperties (copyEssentialH event obfuscated n h)"
proof (cases "getFirstPropertyH h event n")
  case None
  with assms(1) show ?thesis by (simp add: copyEssentialH_def)
next
  case (Some p)
  then have "p \<in> set (propertiesOf h event)"
    by (rule getFirstPropertyH_member)
  with assms(1,2) have "p < nextProperty h"
    by (simp add: ownsProperties_def)
  with assms(1,3) have "ownsProperties (addPropertyH h obfuscated p)"
    by (rule addPropertyH_owns)
  with Some show ?thesis by (simp add: copyEssentialH_def)
qed

lemma fold_copyEssentialH:
  assumes "ownsProperties h" "event < nextComponent h" "obfuscated < nextComponent h"
  shows "ownsProperties (fold (copyEssentialH event obfuscated) ns h) \<and>
    sameShape h (fold (copyEssentialH event obfuscated) ns h)"
  using assms
proof (induction ns arbitrary: h)
  case Nil
  then show ?case by (simp add: sameShape_refl)
next
  case (Cons n ns)
  let ?h = "copyEssentialH event obfuscated n h"
  have shape: "sameShape h ?h"
    by (rule copyEssentialH_shape)
  then have next': "nextComponent ?h = nextComponent h"
    by (simp add: sameShape_def)
  have "ownsProperties ?h"
    using Cons.prems by (rule copyEssentialH_owns)
  with Cons.IH [of ?h] Cons.prems(2,3) next'
  have "ownsProperties (fold (copyEssentialH event obfuscated) ns ?h)"
    and "sameShape ?h (fold (copyEssentialH event obfuscated) ns ?h)"
    by simp_all
  with shape show ?case
    by (auto intro: sameShape_trans)
qed

lemma newComponent_owns:
  assumes "ownsProperties h"
  shows "ownsProperties (fst (newComponent h n))"
  unfolding ownsProperties_def
proof (intro allI impI conjI ballI)
  fix c assume "c < nextComponent (fst (newComponent h n))"
  then have c: "c < nextComponent h \<or> c = nextComponent h"
    by (auto simp: newComponent_def)
  have props: "propertiesOf (fst (newComponent h n)) c =
      (if c = nextComponent h then [] else propertiesOf h c)"
    by (simp add: newComponent_def propertiesOf_def)
  from assms c show "distinct (propertiesOf (fst (newComponent h n)) c)"
    by (auto simp: props ownsProperties_def)
  fix p assume "p \<in> set (propertiesOf (fst (newComponent h n)) c)"
  with c have "c < nextComponent h" "p \<in> set (propertiesOf h c)"
    by (auto simp: props split: if_splits)
  with assms show "p < nextProperty (fst (newComponent h n))"
    and "propertyParent (propertyAt (fst (newComponent h n)) p) = Some c"
    by (simp_all add: ownsProperties_def newComponent_def)
qed

lemma obfuscatedEventH_facts:
  assumes "ownsProperties h" "event < nextComponent h"
  shows "snd (obfuscatedEventH h event) = nextComponent h"
    and "ownsProperties (fst (obfuscatedEventH h event))"
    and "sameShape (fst (newComponent h ''vevent'')) (fst (obfuscatedEventH h event))"
proof -
  let ?h1 = "fst (newComponent h ''vevent'')"
  let ?o = "nextComponent h"
  let ?h2 = "fold (copyEssentialH event ?o) essentialProps ?h1"
  have eq: "obfuscatedEventH h event =
      (updatePropertyWithValueH ?h2 ?o ''summary'' (Other ''BUSY''), ?o)"
    by (simp add: obfuscatedEventH_def newComponent_def)
  show "snd (obfuscatedEventH h event) = nextComponent h"
    by (simp add: eq)
  have n1: "nextComponent ?h1 = Suc ?o"
    by (simp add: newComponent_def)
  have "ownsProperties ?h1"
    using assms(1) by (rule newComponent_owns)
  with fold_copyEssentialH [of ?h1 event ?o essentialProps] assms(2) n1
  have h2: "ownsProperties ?h2" "sameShape ?h1 ?h2"
    by simp_all
  then have "nextComponent ?h2 = Suc ?o"
    using n1 by (simp add: sameShape_def)
  with h2(1) show "ownsProperties (fst (obfuscatedEventH h event))"
    by (simp add: eq updatePropertyWithValueH_owns)
  from h2(2) updatePropertyWithValueH_shape
  show "sameShape ?h1 (fst (obfuscatedEventH h event))"
    unfolding eq fst_conv by (rule sameShape_trans)
qed

subsection \<open>The invariant of the two loops when obfuscate is set\<close>

lemma processEventH_combining:
  assumes "combining n0 h" "event < nextComponent h"
  shows "combining n0 (processEventH True n0 event h)"
proof -
  let ?o = "nextComponent h"
  let ?h0 = "fst (newComponent h ''vevent'')"
  let ?h1 = "fst (obfuscatedEventH h event)"
  let ?h2 = "zoneStartDateH ?h1 ?o"
  from assms(1) have own: "ownsProperties h" and n0: "n0 < ?o"
    by (simp_all add: combining_def)
  have obf: "snd (obfuscatedEventH h event) = ?o" "ownsProperties ?h1" "sameShape ?h0 ?h1"
    using obfuscatedEventH_facts [OF own assms(2)] by blast+
  have own2: "ownsProperties ?h2"
    using obf(2) by (rule zoneStartDateH_owns)
  have "sameShape ?h0 ?h2"
    using obf(3) zoneStartDateH_shape by (rule sameShape_trans)
  then have shape: "nextComponent ?h2 = Suc ?o"
    "\<And>c. subcomponentsOf ?h2 c = (if c = ?o then [] else subcomponentsOf h c)"
    "componentParent (componentAt ?h2 ?o) = None"
    by (simp_all add: sameShape_def newComponent_def subcomponentsOf_def)
  have run: "processEventH True n0 event h = addSubcomponentH ?h2 n0 ?o"
    using obf(1) by (cases "obfuscatedEventH h event") (simp add: processEventH_def)
  have next3: "nextComponent (addSubcomponentH ?h2 n0 ?o) = Suc ?o"
    using shape(1,3) by (simp add: addSubcomponentH_def Let_def)
  have props3: "propertiesOf (addSubcomponentH ?h2 n0 ?o) c = propertiesOf ?h2 c" for c
    using shape(3) by (simp add: addSubcomponentH_def Let_def propertiesOf_def)
  have pa3: "propertyAt (addSubcomponentH ?h2 n0 ?o) = propertyAt ?h2"
    "nextProperty (addSubcomponentH ?h2 n0 ?o) = nextProperty ?h2"
    using shape(3) by (simp_all add: addSubcomponentH_def Let_def)
  have subs3: "subcomponentsOf (addSubcomponentH ?h2 n0 ?o) c =
      (if c = n0 then subcomponentsOf h n0 @ [?o]
       else if c = ?o then [] else subcomponentsOf h c)" for c
    using shape(2,3) n0 by (auto simp: addSubcomponentH_def Let_def subcomponentsOf_def)
  have own3: "ownsProperties (addSubcomponentH ?h2 n0 ?o)"
    using own2 by (simp add: ownsProperties_def props3 pa3 next3 shape(1))
  from assms(1) n0 own3 show ?thesis
    unfolding run combining_def next3 subs3
    by (auto simp: less_Suc_eq)
qed

lemma fold_processEventH_combining:
  assumes "combining n0 h" "\<forall>e \<in> set events. e < n0"
  shows "combining n0 (fold (processEventH True n0) events h)"
  using assms
proof (induction events arbitrary: h)
  case Nil
  then show ?case by simp
next
  case (Cons e events)
  from Cons.prems have "e < nextComponent h"
    by (auto simp: combining_def)
  with Cons.prems(1) have "combining n0 (processEventH True n0 e h)"
    by (rule processEventH_combining)
  with Cons.IH Cons.prems(2) show ?case by simp
qed

lemma forEachCalendarH_combining:
  assumes "combining n0 h" "calendar < n0"
  shows "combining n0 (forEachCalendarH True n0 calendar h)"
proof -
  from assms have "\<forall>e \<in> set (getAllSubcomponentsH h calendar ''vevent''). e < n0"
    by (auto simp: combining_def getAllSubcomponentsH_def)
  with assms(1) show ?thesis
    unfolding forEachCalendarH_def by (rule fold_processEventH_combining)
qed

lemma fold_forEachCalendarH_combining:
  assumes "combining n0 h" "\<forall>c \<in> set calendars. c < n0"
  shows "combining n0 (fold (forEachCalendarH True n0) calendars h)"
  using assms
proof (induction calendars arbitrary: h)
  case Nil
  then show ?case by simp
next
  case (Cons c calendars)
  then have "combining n0 (forEachCalendarH True n0 c h)"
    by (simp add: forEachCalendarH_combining)
  with Cons.IH Cons.prems(2) show ?case by simp
qed

lemma combineCalendarsH_combining:
  assumes "wellFormed h" "\<forall>c \<in> set calendars. c < nextComponent h"
    and "combineCalendarsH h calendars True = (h', combined)"
  shows "combined = nextComponent h" and "combining (nextComponent h) h'"
proof -
  let ?n0 = "nextComponent h"
  let ?h0 = "fst (newComponent h ''vcalendar'')"
  from assms(3) have c: "combined = ?n0"
    and h': "h' = fold (forEachCalendarH True ?n0) calendars ?h0"
    by (auto simp: combineCalendarsH_def newComponent_def)
  from c show "combined = ?n0" .
  have "ownsProperties ?h0"
    using assms(1) by (simp add: wellFormed_ownsProperties newComponent_owns)
  moreover have "subcomponentsOf ?h0 c = (if c = ?n0 then [] else subcomponentsOf h c)" for c
    by (simp add: newComponent_def subcomponentsOf_def)
  moreover have "nextComponent ?h0 = Suc ?n0"
    by (simp add: newComponent_def)
  ultimately have "combining ?n0 ?h0"
    using assms(1) by (auto simp: combining_def wellFormed_def)
  then show "combining ?n0 h'"
    unfolding h' using assms(2) by (rule fold_forEachCalendarH_combining)
qed

lemma new_component_properties_unshared:
  assumes "combining n0 h'" "n0 \<le> e" "e < nextComponent h'" "p \<in> set (propertiesOf h' e)"
    and "c < n0"
  shows "p \<notin> set (propertiesOf h' c)"
proof
  assume "p \<in> set (propertiesOf h' c)"
  moreover from assms have "ownsProperties h'" "c < nextComponent h'"
    by (simp_all add: combining_def)
  ultimately have "c = e"
    using assms(3,4) by (rule_tac owner_unique [of h' c e p])
  with assms(2,5) show False by simp
qed

lemma new_component_reads:
  assumes inv: "combining n0 h'"
    and comps: "\<forall>c. n0 \<le> c \<longrightarrow> componentAt h'' c = componentAt h' c"
    and props: "\<forall>p. (\<forall>c < n0. p \<notin> set (propertiesOf h' c)) \<longrightarrow> propertyAt h'' p = propertyAt h' p"
    and e: "n0 \<le> e" "e < nextComponent h'"
  shows "componentAt h'' e = componentAt h' e"
    and "map (readProperty h'') (propertiesOf h' e) = map (readProperty h') (propertiesOf h' e)"
proof -
  from comps e(1) show "componentAt h'' e = componentAt h' e"
    by blast
  show "map (readProperty h'') (propertiesOf h' e) = map (readProperty h') (propertiesOf h' e)"
  proof (rule map_cong [OF refl])
    fix p assume "p \<in> set (propertiesOf h' e)"
    then have "\<forall>c < n0. p \<notin> set (propertiesOf h' c)"
      using new_component_properties_unshared [OF inv e] by blast
    with props have "propertyAt h'' p = propertyAt h' p"
      by blast
    then show "readProperty h'' p = readProperty h' p"
      by (simp add: readProperty_def)
  qed
qed

lemma new_component_subcomponents:
  assumes "combining n0 h'" "n0 \<le> e" "e < nextComponent h'" "s \<in> set (subcomponentsOf h' e)"
  shows "n0 \<le> s \<and> s < nextComponent h'"
proof (cases "e = n0")
  case True
  with assms(1,4) have "n0 < s \<and> s < nextComponent h'"
    unfolding combining_def by blast
  then show ?thesis by simp
next
  case False
  with assms(1,2,3) have "subcomponentsOf h' e = []"
    by (simp add: combining_def)
  with assms(4) show ?thesis by simp
qed

lemma readComponent_frame:
  assumes inv: "combining n0 h'"
    and comps: "\<forall>c. n0 \<le> c \<longrightarrow> componentAt h'' c = componentAt h' c"
    and props: "\<forall>p. (\<forall>c < n0. p \<notin> set (propertiesOf h' c)) \<longrightarrow> propertyAt h'' p = propertyAt h' p"
    and e: "n0 \<le> e" "e < nextComponent h'"
  shows "readComponent k h'' e = readComponent k h' e"
  using e
proof (induction k arbitrary: e)
  case 0
  note reads = new_component_reads [OF inv comps props 0]
  have "propertiesOf h'' e = propertiesOf h' e"
    by (simp add: propertiesOf_def reads(1))
  with reads show ?case
    by simp
next
  case (Suc k)
  note reads = new_component_reads [OF inv comps props Suc.prems]
  have same: "propertiesOf h'' e = propertiesOf h' e" "subcomponentsOf h'' e = subcomponentsOf h' e"
    by (simp_all add: propertiesOf_def subcomponentsOf_def reads(1))
  have "map (readComponent k h'') (subcomponentsOf h' e) =
      map (readComponent k h') (subcomponentsOf h' e)"
  proof (rule map_cong [OF refl])
    fix s assume "s \<in> set (subcomponentsOf h' e)"
    with inv Suc.prems have "n0 \<le> s \<and> s < nextComponent h'"
      by (rule new_component_subcomponents)
    then show "readComponent k h'' s = readComponent k h' s"
      by (simp add: Suc.IH)
  qed
  with reads same show ?case
    by simp
qed

lemma example_heap_wf: "wellFormed exampleHeap"
  by (simp add: wellFormed_def exampleHeap_def propertiesOf_def subcomponentsOf_def
      less_Suc_eq numeral_2_eq_2)

section \<open>The two models agree when obfuscate is set\<close>

text \<open>
  Read back as values, the heap after combineCalendars with obfuscate set holds what the
  functions on trees compute from the sources read before the call: the obfuscation of
  one event on the heap reads as \<open>obfuscatedEvent\<close>, the step on one event as
  \<open>processEvent True\<close>, and the combined calendar as the result of
  \<open>combineCalendars\<close>, when the sources are distinct trees.
\<close>

lemma find_map: "find P (map f xs) = map_option f (find (\<lambda>x. P (f x)) xs)"
  by (induction xs) simp_all

lemma readComponent_0:
  "readComponent 0 g c =
     Component (componentName (componentAt g c)) (map (readProperty g) (propertiesOf g c)) []"
  by simp

lemma getFirstProperty_read:
  "getFirstProperty (readComponent 0 g c) n = map_option (readProperty g) (getFirstPropertyH g c n)"
  by (simp add: getFirstProperty_def getFirstPropertyH_def find_map readProperty_def
      split: list.split)

lemma getFirstPropertyValue_read:
  "getFirstPropertyValue (readComponent 0 g c) n = getFirstPropertyValueH g c n"
  by (simp add: getFirstPropertyValue_def getFirstPropertyValueH_def getFirstProperty_read
      getFirstValue_def readProperty_def del: readComponent.simps split: option.split)

lemma remove1_map_first:
  "find (\<lambda>q. propName (f q) = n) ps = Some p \<Longrightarrow>
     remove1 (f p) (map f ps) = map f (remove1 p ps)"
proof (induction ps)
  case Nil
  then show ?case by simp
next
  case (Cons q ps)
  show ?case
  proof (cases "propName (f q) = n")
    case True
    with Cons.prems show ?thesis by simp
  next
    case False
    with Cons.prems have found: "find (\<lambda>q. propName (f q) = n) ps = Some p"
      by simp
    then have "propName (f p) = n"
      by (auto simp: find_Some_iff)
    with False have "f q \<noteq> f p" "q \<noteq> p"
      by auto
    with Cons.IH [OF found] show ?thesis by simp
  qed
qed

lemma readProperty_removePropertyH: "readProperty (removePropertyH g c p) q = readProperty g q"
  by (simp add: readProperty_def removePropertyH_def)

lemma readProperty_detach: "readProperty (detach g p) q = readProperty g q"
  by (simp add: detach_def readProperty_removePropertyH split: option.split)

lemma readProperty_addPropertyH: "readProperty (addPropertyH g c p) q = readProperty g q"
proof -
  have "readProperty (addPropertyH g c p) q = readProperty (detach g p) q"
    by (simp add: addPropertyH_detach readProperty_def)
  then show ?thesis by (simp add: readProperty_detach)
qed

lemma propertiesOf_addPropertyH:
  "propertiesOf (addPropertyH g o' p) c =
     (if c = o' then propertiesOf (detach g p) o' @ [p] else propertiesOf (detach g p) c)"
  by (simp add: addPropertyH_detach propertiesOf_def)

lemma propertiesOf_detach_owned:
  "propertyParent (propertyAt g p) = Some e \<Longrightarrow>
     propertiesOf (detach g p) c = (if c = e then remove1 p (propertiesOf g e) else propertiesOf g c)"
  by (simp add: detach_def removePropertyH_properties)

lemma propertiesOf_detach_free:
  "propertyParent (propertyAt g p) = None \<Longrightarrow> propertiesOf (detach g p) c = propertiesOf g c"
  by (simp add: detach_def)

lemma componentName_sameShape:
  "sameShape g g' \<Longrightarrow> componentName (componentAt g' c) = componentName (componentAt g c)"
  by (simp add: sameShape_def)

lemma copyEssentialH_read:
  assumes own: "ownsProperties g" and e: "e < nextComponent g" and neq: "e \<noteq> o'"
  shows "(readComponent 0 (copyEssentialH e o' n g) e, readComponent 0 (copyEssentialH e o' n g) o') =
    copyEssential n (readComponent 0 g e, readComponent 0 g o')"
proof (cases "getFirstPropertyH g e n")
  case None
  then show ?thesis
    by (simp add: copyEssentialH_def getFirstProperty_read del: readComponent.simps)
next
  case (Some p)
  let ?g = "addPropertyH g o' p"
  from Some have mem: "p \<in> set (propertiesOf g e)"
    by (rule getFirstPropertyH_member)
  with own e have parent: "propertyParent (propertyAt g p) = Some e"
    by (simp add: ownsProperties_def)
  have names: "componentName (componentAt ?g c) = componentName (componentAt g c)" for c
    using addPropertyH_shape by (rule componentName_sameShape)
  have pe: "propertiesOf ?g e = remove1 p (propertiesOf g e)"
    using neq by (simp add: propertiesOf_addPropertyH propertiesOf_detach_owned [OF parent])
  have po: "propertiesOf ?g o' = propertiesOf g o' @ [p]"
    using neq by (simp add: propertiesOf_addPropertyH propertiesOf_detach_owned [OF parent])
  have first: "find (\<lambda>q. propName (readProperty g q) = n) (propertiesOf g e) = Some p \<or> n = []"
    using Some by (auto simp: getFirstPropertyH_def readProperty_def split: if_splits)
  have rem: "remove1 (readProperty g p) (map (readProperty g) (propertiesOf g e)) =
      map (readProperty g) (remove1 p (propertiesOf g e))"
  proof (cases "n = []")
    case True
    with Some obtain ps where "propertiesOf g e = p # ps"
      by (auto simp: getFirstPropertyH_def split: list.splits)
    then show ?thesis by simp
  next
    case False
    with first show ?thesis by (simp add: remove1_map_first)
  qed
  have "readComponent 0 ?g e = removeProperty (readComponent 0 g e) (readProperty g p)"
    by (simp add: names pe removeProperty_def rem readProperty_addPropertyH cong: map_cong)
  moreover have "readComponent 0 ?g o' = addProperty (readComponent 0 g o') (readProperty g p)"
    by (simp add: names po addProperty_def readProperty_addPropertyH cong: map_cong)
  ultimately show ?thesis
    using Some by (simp add: copyEssentialH_def getFirstProperty_read del: readComponent.simps)
qed

lemma keeps_refl: "keeps g g c"
  by (simp add: keeps_def)

lemma keeps_trans: "keeps g g' c \<Longrightarrow> keeps g' g'' c \<Longrightarrow> keeps g g'' c"
  by (simp add: keeps_def)

lemma keeps_read: "keeps g g' c \<Longrightarrow> readComponent 0 g' c = readComponent 0 g c"
  by (simp add: keeps_def cong: map_cong)

lemma copyEssentialH_keeps:
  assumes "ownsProperties g" "e < nextComponent g" "c \<noteq> e" "c \<noteq> o'"
  shows "keeps g (copyEssentialH e o' n g) c"
proof (cases "getFirstPropertyH g e n")
  case None
  then show ?thesis by (simp add: copyEssentialH_def keeps_refl)
next
  case (Some p)
  then have "p \<in> set (propertiesOf g e)"
    by (rule getFirstPropertyH_member)
  with assms(1,2) have parent: "propertyParent (propertyAt g p) = Some e"
    by (simp add: ownsProperties_def)
  have "componentName (componentAt (addPropertyH g o' p) c) = componentName (componentAt g c)"
    using addPropertyH_shape by (rule componentName_sameShape)
  with Some assms(3,4) show ?thesis
    by (simp add: copyEssentialH_def keeps_def propertiesOf_addPropertyH
        propertiesOf_detach_owned [OF parent] readProperty_addPropertyH)
qed

lemma fold_copyEssentialH_read:
  assumes "ownsProperties g" "e < nextComponent g" "o' < nextComponent g" "e \<noteq> o'"
  shows "(readComponent 0 (fold (copyEssentialH e o') ns g) e,
       readComponent 0 (fold (copyEssentialH e o') ns g) o') =
      fold copyEssential ns (readComponent 0 g e, readComponent 0 g o')"
  using assms
proof (induction ns arbitrary: g)
  case Nil
  show ?case by simp
next
  case (Cons n ns)
  let ?g = "copyEssentialH e o' n g"
  have own: "ownsProperties ?g"
    using Cons.prems(1,2,3) by (rule copyEssentialH_owns)
  have next': "nextComponent ?g = nextComponent g"
    using copyEssentialH_shape [of g e o' n] by (simp add: sameShape_def)
  have step: "(readComponent 0 ?g e, readComponent 0 ?g o') =
      copyEssential n (readComponent 0 g e, readComponent 0 g o')"
    using Cons.prems(1,2,4) by (rule copyEssentialH_read)
  from Cons.IH [OF own] Cons.prems(2,3,4) next' step show ?case
    by (simp del: readComponent.simps copyEssential.simps)
qed

lemma fold_copyEssentialH_keeps:
  assumes "ownsProperties g" "e < nextComponent g" "o' < nextComponent g"
    and "c \<noteq> e" "c \<noteq> o'"
  shows "keeps g (fold (copyEssentialH e o') ns g) c"
  using assms(1,2,3)
proof (induction ns arbitrary: g)
  case Nil
  show ?case by (simp add: keeps_refl)
next
  case (Cons n ns)
  let ?g = "copyEssentialH e o' n g"
  have own: "ownsProperties ?g"
    using Cons.prems by (rule copyEssentialH_owns)
  have next': "nextComponent ?g = nextComponent g"
    using copyEssentialH_shape [of g e o' n] by (simp add: sameShape_def)
  have "keeps g ?g c"
    using Cons.prems(1,2) assms(4,5) by (rule copyEssentialH_keeps)
  moreover have "keeps ?g (fold (copyEssentialH e o') ns ?g) c"
    using Cons.IH [OF own] Cons.prems(2,3) next' by simp
  ultimately show ?case
    by (simp add: keeps_trans)
qed

lemma newComponent_keeps: "c \<noteq> nextComponent g \<Longrightarrow> keeps g (fst (newComponent g n)) c"
  by (simp add: keeps_def newComponent_def propertiesOf_def readProperty_def)

lemma newComponent_read:
  "readComponent 0 (fst (newComponent g n)) (nextComponent g) = Component n [] []"
  by (simp add: newComponent_def propertiesOf_def)

lemma updatePropertyWithValueH_new:
  assumes none: "getFirstPropertyH g o' n = None"
  shows "propertiesOf (updatePropertyWithValueH g o' n v) c =
      (if c = o' then propertiesOf g o' @ [nextProperty g] else propertiesOf g c)"
    and "readProperty (updatePropertyWithValueH g o' n v) q =
      (if q = nextProperty g then \<lparr>propName = n, parameters = [], propValues = [v]\<rparr>
       else readProperty g q)"
    and "componentName (componentAt (updatePropertyWithValueH g o' n v) c) =
      componentName (componentAt g c)"
proof -
  let ?np = "nextProperty g"
  let ?g2 = "setValueH (fst (newProperty g n)) ?np v"
  have eq: "updatePropertyWithValueH g o' n v = addPropertyH ?g2 o' ?np"
    using none by (simp add: updatePropertyWithValueH_def addPropertyWithValueH_def newProperty_def)
  have free: "propertyParent (propertyAt ?g2 ?np) = None"
    by (simp add: setValueH_def newProperty_def)
  have props2: "propertiesOf ?g2 c = propertiesOf g c" for c
    by (simp add: setValueH_def newProperty_def propertiesOf_def)
  show "propertiesOf (updatePropertyWithValueH g o' n v) c =
      (if c = o' then propertiesOf g o' @ [?np] else propertiesOf g c)"
    by (simp add: eq propertiesOf_addPropertyH propertiesOf_detach_free [OF free] props2)
  show "readProperty (updatePropertyWithValueH g o' n v) q =
      (if q = ?np then \<lparr>propName = n, parameters = [], propValues = [v]\<rparr>
       else readProperty g q)"
    by (simp add: eq readProperty_addPropertyH)
      (simp add: readProperty_def setValueH_def newProperty_def)
  show "componentName (componentAt (updatePropertyWithValueH g o' n v) c) =
      componentName (componentAt g c)"
    using updatePropertyWithValueH_shape by (rule componentName_sameShape)
qed

lemma updatePropertyWithValueH_keeps:
  assumes "getFirstPropertyH g o' n = None" "ownsProperties g" "c < nextComponent g" "c \<noteq> o'"
  shows "keeps g (updatePropertyWithValueH g o' n v) c"
proof -
  have "q \<noteq> nextProperty g" if "q \<in> set (propertiesOf g c)" for q
    using that assms(2,3) by (auto simp: ownsProperties_def)
  with assms(4) show ?thesis
    by (simp add: keeps_def updatePropertyWithValueH_new [OF assms(1)])
qed

lemma updatePropertyWithValueH_read:
  assumes "getFirstPropertyH g o' n = None" "ownsProperties g" "o' < nextComponent g"
  shows "readComponent 0 (updatePropertyWithValueH g o' n v) o' =
    updatePropertyWithValue (readComponent 0 g o') n v"
proof -
  have "q \<noteq> nextProperty g" if "q \<in> set (propertiesOf g o')" for q
    using that assms(2,3) by (auto simp: ownsProperties_def)
  then have "map (readProperty (updatePropertyWithValueH g o' n v)) (propertiesOf g o') =
      map (readProperty g) (propertiesOf g o')"
    by (simp add: updatePropertyWithValueH_new [OF assms(1)] cong: map_cong)
  moreover have "getFirstProperty (readComponent 0 g o') n = None"
    using assms(1) by (simp add: getFirstProperty_read del: readComponent.simps)
  ultimately show ?thesis
    by (simp add: updatePropertyWithValue_def addPropertyWithValue_def addProperty_def
        setValue_def updatePropertyWithValueH_new [OF assms(1)])
qed

lemma zone_map:
  assumes "distinct ps" "find (\<lambda>q. propertyName (propertyAt g q) = n) ps = Some p"
  shows "map (readProperty (g\<lparr>propertyAt := (propertyAt g)(p :=
        (propertyAt g p)\<lparr>propertyValues := setZoneFirst (propertyValues (propertyAt g p))\<rparr>)\<rparr>)) ps =
      zoneFirstNamed n (map (readProperty g) ps)"
  using assms
proof (induction ps)
  case Nil
  then show ?case by simp
next
  case (Cons q ps)
  show ?case
  proof (cases "propertyName (propertyAt g q) = n")
    case True
    with Cons.prems have "p = q" "q \<notin> set ps"
      by simp_all
    with True show ?thesis
      by (simp add: readProperty_def cong: map_cong)
  next
    case False
    with Cons.prems have "find (\<lambda>q. propertyName (propertyAt g q) = n) ps = Some p" "distinct ps"
      by simp_all
    moreover from this(1) have "propertyName (propertyAt g p) = n"
      by (auto simp: find_Some_iff)
    with False have "q \<noteq> p" by auto
    ultimately show ?thesis
      using False Cons.IH by (simp add: readProperty_def)
  qed
qed

lemma zoneStartDateH_read:
  assumes "ownsProperties g" "o' < nextComponent g"
  shows "readComponent 0 (zoneStartDateH g o') o' = zoneStartDate (readComponent 0 g o')"
proof (cases "\<exists>s. getFirstPropertyValueH g o' ''dtstart'' = Some (Time s None)")
  case False
  then have "zoneStartDateH g o' = g"
    by (auto simp: zoneStartDateH_def split: option.split val.split)
  moreover from False have "zoneStartDate (readComponent 0 g o') = readComponent 0 g o'"
    unfolding zoneStartDate_def getFirstPropertyValue_read
    by (auto split: option.split val.split)
  ultimately show ?thesis by simp
next
  case True
  then obtain s where s: "getFirstPropertyValueH g o' ''dtstart'' = Some (Time s None)"
    by blast
  then obtain p where p: "getFirstPropertyH g o' ''dtstart'' = Some p"
    by (auto simp: getFirstPropertyValueH_def split: option.splits)
  then have found: "find (\<lambda>q. propertyName (propertyAt g q) = ''dtstart'') (propertiesOf g o') = Some p"
    by (simp add: getFirstPropertyH_def)
  from assms have "distinct (propertiesOf g o')"
    by (simp add: ownsProperties_def)
  from zone_map [OF this found] s p show ?thesis
    unfolding zoneStartDate_def getFirstPropertyValue_read
    by (simp add: zoneStartDateH_def propertiesOf_def)
qed

lemma zoneStartDateH_keeps:
  assumes "ownsProperties g" "o' < nextComponent g" "c < nextComponent g" "c \<noteq> o'"
  shows "keeps g (zoneStartDateH g o') c"
proof (cases "getFirstPropertyH g o' ''dtstart''")
  case None
  then show ?thesis
    by (simp add: zoneStartDateH_def keeps_refl split: option.split val.split)
next
  case (Some p)
  then have "p \<in> set (propertiesOf g o')"
    by (rule getFirstPropertyH_member)
  then have "q \<noteq> p" if "q \<in> set (propertiesOf g c)" for q
    using that assms owner_unique [of g c o' p] by auto
  with Some show ?thesis
    by (simp add: zoneStartDateH_def keeps_def propertiesOf_def readProperty_def
        split: option.split val.split)
qed

lemma addSubcomponentH_keeps:
  "componentParent (componentAt g s) = None \<Longrightarrow> keeps g (addSubcomponentH g c s) c'"
  by (simp add: keeps_def addSubcomponentH_def Let_def propertiesOf_def readProperty_def)

lemma no_summary_after_copy:
  "getFirstProperty (snd (fold copyEssential essentialProps (ev, Component ''vevent'' [] [])))
     ''summary'' = None"
proof -
  have fold: "snd (fold copyEssential essentialProps (ev, Component ''vevent'' [] [])) =
      Component ''vevent'' (firstEssentials ev) []"
    by (subst fold_copyEssential) (simp_all add: essentialProps_def firstEssentials_def)
  have "''summary'' \<notin> set essentialProps"
    by (simp add: essentialProps_def)
  then have "find (\<lambda>p. propName p = ''summary'') (firstEssentials ev) = None"
    unfolding firstEssentials_def by (rule find_map_filter_None)
  then show ?thesis
    by (simp add: fold getFirstProperty_def)
qed

lemma obfuscatedEventH_read:
  assumes own: "ownsProperties g" and e: "e < nextComponent g"
  shows "readComponent 0 (fst (obfuscatedEventH g e)) (nextComponent g) =
      obfuscatedEvent (readComponent 0 g e)"
    and "c < nextComponent g \<Longrightarrow> c \<noteq> e \<Longrightarrow> keeps g (fst (obfuscatedEventH g e)) c"
proof -
  let ?o = "nextComponent g"
  let ?g1 = "fst (newComponent g ''vevent'')"
  let ?g2 = "fold (copyEssentialH e ?o) essentialProps ?g1"
  let ?g3 = "updatePropertyWithValueH ?g2 ?o ''summary'' (Other ''BUSY'')"
  have eq: "fst (obfuscatedEventH g e) = ?g3"
    by (simp add: obfuscatedEventH_def newComponent_def)
  have n1: "nextComponent ?g1 = Suc ?o"
    by (simp add: newComponent_def)
  have own1: "ownsProperties ?g1"
    using own by (rule newComponent_owns)
  have e1: "e < nextComponent ?g1" "?o < nextComponent ?g1" "e \<noteq> ?o"
    using e n1 by simp_all
  have read1: "readComponent 0 ?g1 e = readComponent 0 g e"
    using e by (intro keeps_read newComponent_keeps) simp
  have pair: "(readComponent 0 ?g2 e, readComponent 0 ?g2 ?o) =
      fold copyEssential essentialProps (readComponent 0 g e, Component ''vevent'' [] [])"
    using fold_copyEssentialH_read [OF own1 e1, of essentialProps]
    by (simp only: read1 newComponent_read)
  then have read2: "readComponent 0 ?g2 ?o =
      snd (fold copyEssential essentialProps (readComponent 0 g e, Component ''vevent'' [] []))"
    by (metis snd_conv)
  have own2: "ownsProperties ?g2" and shape2: "sameShape ?g1 ?g2"
    using fold_copyEssentialH [OF own1 e1(1,2), of essentialProps] by blast+
  then have n2: "nextComponent ?g2 = Suc ?o"
    using n1 by (simp add: sameShape_def)
  have "getFirstProperty (readComponent 0 ?g2 ?o) ''summary'' = None"
    unfolding read2 by (rule no_summary_after_copy)
  then have none: "getFirstPropertyH ?g2 ?o ''summary'' = None"
    by (simp add: getFirstProperty_read del: readComponent.simps)
  have "readComponent 0 ?g3 ?o =
      updatePropertyWithValue (readComponent 0 ?g2 ?o) ''summary'' (Other ''BUSY'')"
    using none own2 by (rule updatePropertyWithValueH_read) (simp add: n2)
  then show "readComponent 0 (fst (obfuscatedEventH g e)) ?o = obfuscatedEvent (readComponent 0 g e)"
    unfolding eq read2 obfuscatedEvent_def .
  show "keeps g (fst (obfuscatedEventH g e)) c" if c: "c < ?o" "c \<noteq> e"
  proof -
    from c have "keeps g ?g1 c"
      by (intro newComponent_keeps) simp
    moreover have "keeps ?g1 ?g2 c"
      using own1 e1(1,2) c by (intro fold_copyEssentialH_keeps) simp_all
    moreover have "keeps ?g2 ?g3 c"
      using none own2 c by (intro updatePropertyWithValueH_keeps) (simp_all add: n2)
    ultimately show ?thesis
      unfolding eq by (blast intro: keeps_trans)
  qed
qed

lemma processEventH_read:
  assumes inv: "combining n0 g" and e: "e < nextComponent g"
  shows "readComponent 0 (processEventH True n0 e g) (nextComponent g) =
      processEvent True (readComponent 0 g e)"
    and "c < nextComponent g \<Longrightarrow> c \<noteq> e \<Longrightarrow> keeps g (processEventH True n0 e g) c"
    and "subcomponentsOf (processEventH True n0 e g) c =
      (if c = n0 then subcomponentsOf g n0 @ [nextComponent g]
       else if c = nextComponent g then [] else subcomponentsOf g c)"
proof -
  let ?o = "nextComponent g"
  let ?h0 = "fst (newComponent g ''vevent'')"
  let ?h1 = "fst (obfuscatedEventH g e)"
  let ?h2 = "zoneStartDateH ?h1 ?o"
  from inv have own: "ownsProperties g" and n0: "n0 < ?o"
    by (simp_all add: combining_def)
  have obf: "snd (obfuscatedEventH g e) = ?o" "ownsProperties ?h1" "sameShape ?h0 ?h1"
    using obfuscatedEventH_facts [OF own e] by blast+
  then have n1: "nextComponent ?h1 = Suc ?o"
    by (simp add: sameShape_def newComponent_def)
  have "sameShape ?h0 ?h2"
    using obf(3) zoneStartDateH_shape by (rule sameShape_trans)
  then have shape: "\<And>c. subcomponentsOf ?h2 c = (if c = ?o then [] else subcomponentsOf g c)"
    "componentParent (componentAt ?h2 ?o) = None"
    by (simp_all add: sameShape_def newComponent_def subcomponentsOf_def)
  have run: "processEventH True n0 e g = addSubcomponentH ?h2 n0 ?o"
    using obf(1) by (cases "obfuscatedEventH g e") (simp add: processEventH_def)
  show "subcomponentsOf (processEventH True n0 e g) c =
      (if c = n0 then subcomponentsOf g n0 @ [?o]
       else if c = ?o then [] else subcomponentsOf g c)"
    unfolding run
    using shape n0 by (auto simp: addSubcomponentH_def Let_def subcomponentsOf_def)
  have last: "keeps ?h2 (addSubcomponentH ?h2 n0 ?o) c'" for c'
    using shape(2) by (rule addSubcomponentH_keeps)
  have "readComponent 0 (addSubcomponentH ?h2 n0 ?o) ?o = readComponent 0 ?h2 ?o"
    using last by (rule keeps_read)
  also have "\<dots> = zoneStartDate (readComponent 0 ?h1 ?o)"
    using obf(2) by (rule zoneStartDateH_read) (simp add: n1)
  also have "\<dots> = zoneStartDate (obfuscatedEvent (readComponent 0 g e))"
    by (simp only: obfuscatedEventH_read(1) [OF own e])
  finally show "readComponent 0 (processEventH True n0 e g) ?o =
      processEvent True (readComponent 0 g e)"
    unfolding run processEvent_def by simp
  show "keeps g (processEventH True n0 e g) c" if c: "c < ?o" "c \<noteq> e"
  proof -
    have "keeps g ?h1 c"
      using own e c by (rule obfuscatedEventH_read(2))
    moreover have "keeps ?h1 ?h2 c"
      using obf(2) c by (intro zoneStartDateH_keeps) (simp_all add: n1)
    ultimately show ?thesis
      unfolding run using last by (blast intro: keeps_trans)
  qed
qed

lemma addSubcomponentH_free:
  assumes "componentParent (componentAt g s) = None"
  shows "componentName (componentAt (addSubcomponentH g c s) c') = componentName (componentAt g c')"
    and "nextComponent (addSubcomponentH g c s) = nextComponent g"
  using assms by (simp_all add: addSubcomponentH_def Let_def)

lemma processEventH_name:
  assumes "combining n0 g" "e < nextComponent g"
  shows "c < nextComponent g \<Longrightarrow>
      componentName (componentAt (processEventH True n0 e g) c) = componentName (componentAt g c)"
    and "nextComponent (processEventH True n0 e g) = Suc (nextComponent g)"
proof -
  let ?o = "nextComponent g"
  let ?h0 = "fst (newComponent g ''vevent'')"
  let ?h1 = "fst (obfuscatedEventH g e)"
  let ?h2 = "zoneStartDateH ?h1 ?o"
  from assms(1) have own: "ownsProperties g"
    by (simp add: combining_def)
  have obf: "snd (obfuscatedEventH g e) = ?o" "sameShape ?h0 ?h1"
    using obfuscatedEventH_facts [OF own assms(2)] by blast+
  have "sameShape ?h0 ?h2"
    using obf(2) zoneStartDateH_shape by (rule sameShape_trans)
  then have shape: "\<And>c. c < ?o \<Longrightarrow> componentName (componentAt ?h2 c) = componentName (componentAt g c)"
    "componentParent (componentAt ?h2 ?o) = None" "nextComponent ?h2 = Suc ?o"
    by (simp_all add: sameShape_def newComponent_def)
  have run: "processEventH True n0 e g = addSubcomponentH ?h2 n0 ?o"
    using obf(1) by (cases "obfuscatedEventH g e") (simp add: processEventH_def)
  show "componentName (componentAt (processEventH True n0 e g) c) = componentName (componentAt g c)"
    if "c < ?o"
    unfolding run addSubcomponentH_free(1) [OF shape(2)] using that by (rule shape(1))
  show "nextComponent (processEventH True n0 e g) = Suc ?o"
    unfolding run addSubcomponentH_free(2) [OF shape(2)] by (rule shape(3))
qed

lemma fold_processEventH_read:
  assumes "combining n0 g" "\<forall>e \<in> set es. e < n0" "distinct es"
  shows "map (readComponent 0 (fold (processEventH True n0) es g))
        (subcomponentsOf (fold (processEventH True n0) es g) n0) =
      map (readComponent 0 g) (subcomponentsOf g n0) @
      map (\<lambda>e. processEvent True (readComponent 0 g e)) es \<and>
    (\<forall>c < nextComponent g. c \<notin> set es \<longrightarrow> keeps g (fold (processEventH True n0) es g) c) \<and>
    (\<forall>c < n0. subcomponentsOf (fold (processEventH True n0) es g) c = subcomponentsOf g c) \<and>
    (\<forall>c < nextComponent g.
       componentName (componentAt (fold (processEventH True n0) es g) c) =
       componentName (componentAt g c))"
  using assms
proof (induction es arbitrary: g)
  case Nil
  then show ?case by (simp add: keeps_refl)
next
  case (Cons e es)
  let ?o = "nextComponent g"
  let ?g1 = "processEventH True n0 e g"
  let ?gF = "fold (processEventH True n0) es ?g1"
  from Cons.prems(1) have n0: "n0 < ?o"
    by (simp add: combining_def)
  from Cons.prems(2) n0 have e: "e < ?o" "e < n0"
    by auto
  have inv1: "combining n0 ?g1"
    using Cons.prems(1) e(1) by (rule processEventH_combining)
  have next1: "nextComponent ?g1 = Suc ?o"
    using Cons.prems(1) e(1) by (rule processEventH_name(2))
  note step = processEventH_read [OF Cons.prems(1) e(1)]
  have es: "\<forall>e \<in> set es. e < n0" "distinct es" "e \<notin> set es"
    using Cons.prems(2,3) by simp_all
  note IH = Cons.IH [OF inv1 es(1,2)]
  have subs1: "subcomponentsOf ?g1 n0 = subcomponentsOf g n0 @ [?o]"
    by (simp add: step(3))
  have old_read: "readComponent 0 ?g1 s = readComponent 0 g s"
    if "s \<in> set (subcomponentsOf g n0)" for s
  proof -
    from that Cons.prems(1) have "n0 < s" "s < ?o"
      by (auto simp: combining_def)
    with e(2) show ?thesis
      by (intro keeps_read step(2)) simp_all
  qed
  have ev_read: "readComponent 0 ?g1 e' = readComponent 0 g e'" if "e' \<in> set es" for e'
  proof -
    from that es have "e' < n0" "e' \<noteq> e"
      by auto
    with n0 show ?thesis
      by (intro keeps_read step(2)) simp_all
  qed
  have a: "map (readComponent 0 ?gF) (subcomponentsOf ?gF n0) =
      map (readComponent 0 g) (subcomponentsOf g n0) @
      map (\<lambda>e. processEvent True (readComponent 0 g e)) (e # es)"
    using IH old_read ev_read step(1)
    by (simp add: subs1 del: readComponent.simps cong: map_cong)
  have b: "keeps g ?gF c" if "c < ?o" "c \<notin> set (e # es)" for c
  proof -
    from that have "keeps g ?g1 c"
      by (intro step(2)) simp_all
    moreover from that IH have "keeps ?g1 ?gF c"
      by (simp add: next1)
    ultimately show ?thesis by (rule keeps_trans)
  qed
  have c: "subcomponentsOf ?gF c = subcomponentsOf g c" if "c < n0" for c
  proof -
    from that IH have "subcomponentsOf ?gF c = subcomponentsOf ?g1 c"
      by simp
    with that n0 show ?thesis
      by (simp add: step(3))
  qed
  have d: "componentName (componentAt ?gF c) = componentName (componentAt g c)" if "c < ?o" for c
  proof -
    from that IH have "componentName (componentAt ?gF c) = componentName (componentAt ?g1 c)"
      by (simp add: next1)
    with that show ?thesis
      by (simp add: processEventH_name(1) [OF Cons.prems(1) e(1)])
  qed
  from a b c d show ?case
    by (simp del: readComponent.simps)
qed

lemma getAllSubcomponentsH_cong:
  assumes "subcomponentsOf g' c = subcomponentsOf g c"
    and "\<forall>s \<in> set (subcomponentsOf g c).
      componentName (componentAt g' s) = componentName (componentAt g s)"
  shows "getAllSubcomponentsH g' c n = getAllSubcomponentsH g c n"
  using assms by (simp add: getAllSubcomponentsH_def cong: filter_cong)

lemma fold_forEachCalendarH_flat:
  assumes "combining n0 g" "\<forall>c \<in> set calendars. c < n0"
    and "distinct (concat (map (\<lambda>c. getAllSubcomponentsH g c ''vevent'') calendars))"
  shows "fold (forEachCalendarH True n0) calendars g =
    fold (processEventH True n0)
      (concat (map (\<lambda>c. getAllSubcomponentsH g c ''vevent'') calendars)) g"
  using assms
proof (induction calendars arbitrary: g)
  case Nil
  then show ?case by simp
next
  case (Cons c calendars)
  let ?es = "getAllSubcomponentsH g c ''vevent''"
  let ?g1 = "fold (processEventH True n0) ?es g"
  from Cons.prems(1) have n0: "n0 < nextComponent g"
    and old: "\<forall>c < n0. \<forall>s \<in> set (subcomponentsOf g c). s < n0"
    by (simp_all add: combining_def)
  from Cons.prems(2) old have es: "\<forall>e \<in> set ?es. e < n0"
    by (auto simp: getAllSubcomponentsH_def)
  from Cons.prems(3) have dist: "distinct ?es"
    by simp
  have inv1: "combining n0 ?g1"
    using Cons.prems(1) es by (rule fold_processEventH_combining)
  note loop = fold_processEventH_read [OF Cons.prems(1) es dist]
  have same: "getAllSubcomponentsH ?g1 c' ''vevent'' = getAllSubcomponentsH g c' ''vevent''"
    if "c' \<in> set calendars" for c'
  proof (rule getAllSubcomponentsH_cong)
    from that Cons.prems(2) have c': "c' < n0" by simp
    with loop show "subcomponentsOf ?g1 c' = subcomponentsOf g c'"
      by blast
    show "\<forall>s \<in> set (subcomponentsOf g c').
        componentName (componentAt ?g1 s) = componentName (componentAt g s)"
    proof
      fix s assume "s \<in> set (subcomponentsOf g c')"
      with old c' n0 have "s < nextComponent g" by fastforce
      with loop show "componentName (componentAt ?g1 s) = componentName (componentAt g s)"
        by blast
    qed
  qed
  then have events: "map (\<lambda>c. getAllSubcomponentsH ?g1 c ''vevent'') calendars =
      map (\<lambda>c. getAllSubcomponentsH g c ''vevent'') calendars"
    by simp
  have first: "forEachCalendarH True n0 c g = ?g1"
    by (simp add: forEachCalendarH_def)
  have "fold (forEachCalendarH True n0) calendars ?g1 =
      fold (processEventH True n0)
        (concat (map (\<lambda>c. getAllSubcomponentsH ?g1 c ''vevent'') calendars)) ?g1"
    using inv1 Cons.prems(2,3) by (intro Cons.IH) (simp_all add: events)
  then show ?case
    by (simp add: first events)
qed

lemma readComponent_leaf:
  "subcomponentsOf g c = [] \<Longrightarrow> readComponent k g c = readComponent 0 g c"
  by (cases k) simp_all

lemma wellFormed_events_distinct:
  assumes "wellFormed h" "\<forall>c \<in> set calendars. c < nextComponent h" "distinct calendars"
  shows "distinct (concat (map (\<lambda>c. getAllSubcomponentsH h c n) calendars))"
  using assms(2,3)
proof (induction calendars)
  case Nil
  then show ?case by simp
next
  case (Cons c calendars)
  have sub: "set (getAllSubcomponentsH h c' n) \<subseteq> set (subcomponentsOf h c')" for c'
    by (auto simp: getAllSubcomponentsH_def)
  from Cons.prems assms(1) have "distinct (subcomponentsOf h c)"
    by (simp add: wellFormed_def)
  then have 1: "distinct (getAllSubcomponentsH h c n)"
    by (simp add: getAllSubcomponentsH_def)
  have 2: "e \<notin> set (getAllSubcomponentsH h c' n)"
    if "e \<in> set (getAllSubcomponentsH h c n)" "c' \<in> set calendars" for e c'
  proof
    assume "e \<in> set (getAllSubcomponentsH h c' n)"
    with sub have "e \<in> set (subcomponentsOf h c')" by blast
    moreover from that(2) Cons.prems have "c' < nextComponent h" "c' \<noteq> c" by auto
    ultimately have "componentParent (componentAt h e) = Some c'"
      using assms(1) by (simp add: wellFormed_def)
    moreover from that(1) sub have "e \<in> set (subcomponentsOf h c)" by blast
    with Cons.prems assms(1) have "componentParent (componentAt h e) = Some c"
      by (simp add: wellFormed_def)
    ultimately show False using \<open>c' \<noteq> c\<close> by simp
  qed
  from Cons 1 2 show ?case
    by auto
qed

theorem combineCalendarsH_reads_as_processEvent:
  assumes "wellFormed h" "\<forall>c \<in> set calendars. c < nextComponent h" "distinct calendars"
    and "combineCalendarsH h calendars True = (h', combined)"
  shows "readComponent (Suc k) h' combined =
    Component ''vcalendar'' []
      (map (\<lambda>e. processEvent True (readComponent 0 h e))
         (concat (map (\<lambda>c. getAllSubcomponentsH h c ''vevent'') calendars)))"
proof -
  let ?n0 = "nextComponent h"
  let ?g0 = "fst (newComponent h ''vcalendar'')"
  let ?es = "concat (map (\<lambda>c. getAllSubcomponentsH h c ''vevent'') calendars)"
  from assms(4) have c: "combined = ?n0"
    and h': "h' = fold (forEachCalendarH True ?n0) calendars ?g0"
    by (auto simp: combineCalendarsH_def newComponent_def)
  have inv: "combining ?n0 h'"
    using combineCalendarsH_combining [OF assms(1,2,4)] by blast
  from assms(1) have old: "\<forall>c < ?n0. \<forall>s \<in> set (subcomponentsOf h c). s < ?n0"
    by (simp add: wellFormed_def)
  have g0: "ownsProperties ?g0" "nextComponent ?g0 = Suc ?n0"
    "\<And>c. subcomponentsOf ?g0 c = (if c = ?n0 then [] else subcomponentsOf h c)"
    "\<And>c. c < ?n0 \<Longrightarrow> componentName (componentAt ?g0 c) = componentName (componentAt h c)"
    using assms(1)
    by (simp_all add: wellFormed_ownsProperties newComponent_owns)
      (simp_all add: newComponent_def subcomponentsOf_def)
  then have inv0: "combining ?n0 ?g0"
    using old by (auto simp: combining_def)
  have events0: "getAllSubcomponentsH ?g0 c ''vevent'' = getAllSubcomponentsH h c ''vevent''"
    if "c \<in> set calendars" for c
  proof (rule getAllSubcomponentsH_cong)
    from that assms(2) have c: "c < ?n0" by simp
    then show "subcomponentsOf ?g0 c = subcomponentsOf h c"
      by (simp add: g0(3))
    from c old show "\<forall>s \<in> set (subcomponentsOf h c).
        componentName (componentAt ?g0 s) = componentName (componentAt h s)"
      by (simp add: g0(4))
  qed
  then have events: "concat (map (\<lambda>c. getAllSubcomponentsH ?g0 c ''vevent'') calendars) = ?es"
    by (simp cong: map_cong)
  have dist: "distinct ?es"
    using assms(1,2,3) by (rule wellFormed_events_distinct)
  have es: "\<forall>e \<in> set ?es. e < ?n0"
    using assms(2) old by (auto simp: getAllSubcomponentsH_def)
  have flat: "h' = fold (processEventH True ?n0) ?es ?g0"
    unfolding h' using fold_forEachCalendarH_flat [OF inv0 assms(2)] dist
    by (simp add: events)
  note loop = fold_processEventH_read [OF inv0 es dist, folded flat]
  have "?n0 \<notin> set ?es"
    using es by blast
  moreover have "\<forall>c < nextComponent ?g0. c \<notin> set ?es \<longrightarrow> keeps ?g0 h' c"
    using loop by (elim conjE)
  ultimately have "keeps ?g0 h' ?n0"
    by (simp add: g0(2))
  then have top: "componentName (componentAt h' ?n0) = ''vcalendar''" "propertiesOf h' ?n0 = []"
    by (simp_all add: keeps_def) (simp_all add: newComponent_def propertiesOf_def)
  have leaf: "readComponent k h' s = readComponent 0 h' s" if "s \<in> set (subcomponentsOf h' ?n0)" for s
  proof -
    from that inv have "?n0 < s" "s < nextComponent h'"
      by (auto simp: combining_def)
    with inv have "subcomponentsOf h' s = []"
      by (simp add: combining_def)
    then show ?thesis by (rule readComponent_leaf)
  qed
  have src: "readComponent 0 ?g0 e = readComponent 0 h e" if "e \<in> set ?es" for e
  proof -
    from that es have "e \<noteq> ?n0" by auto
    then show ?thesis by (intro keeps_read newComponent_keeps)
  qed
  have "map (readComponent k h') (subcomponentsOf h' ?n0) =
      map (readComponent 0 h') (subcomponentsOf h' ?n0)"
    using leaf by (simp cong: map_cong)
  also have "\<dots> = map (\<lambda>e. processEvent True (readComponent 0 ?g0 e)) ?es"
    using loop by (simp add: g0(3) del: readComponent.simps)
  also have "\<dots> = map (\<lambda>e. processEvent True (readComponent 0 h e)) ?es"
    using src by (simp del: readComponent.simps cong: map_cong)
  finally show ?thesis
    using top by (simp add: c)
qed

lemma properties_readComponent:
  "properties (readComponent k g c) = map (readProperty g) (propertiesOf g c)"
  by (cases k) simp_all

lemma name_readComponent: "name (readComponent k g c) = componentName (componentAt g c)"
  by (cases k) simp_all

lemma processEvent_True_read:
  "processEvent True (readComponent k g c) = processEvent True (readComponent 0 g c)"
  by (simp add: processEvent_def obfuscatedEvent_eq firstEssentials_def
      properties_readComponent del: readComponent.simps)

lemma getAllSubcomponents_read:
  "getAllSubcomponents (readComponent (Suc k) g c) ''vevent'' =
     map (readComponent k g) (getAllSubcomponentsH g c ''vevent'')"
proof -
  have "filter (\<lambda>s. name s = ''vevent'') (map (readComponent k g) (subcomponentsOf g c)) =
      map (readComponent k g)
        (filter (\<lambda>s. name (readComponent k g s) = ''vevent'') (subcomponentsOf g c))"
    by (simp add: filter_map comp_def)
  then show ?thesis
    by (simp add: getAllSubcomponents_def getAllSubcomponentsH_def name_readComponent)
qed

lemma combineCalendars_all_parse:
  assumes "list_all (\<lambda>d. \<not> isl (parse d)) texts"
  shows "combineCalendars parse texts obfuscate =
    Inr (Component ''vcalendar'' []
      (concat (map (\<lambda>d. map (processEvent obfuscate) (sourceEvents parse d)) texts)))"
proof -
  from assms obtain doc where run: "combineCalendars parse texts obfuscate = Inr doc"
    using combineCalendars_total by blast
  from combineCalendars_Inr [OF run] run show ?thesis by simp
qed

theorem combineCalendars_is_read_of_combineCalendarsH:
  assumes "wellFormed h" "\<forall>c \<in> set calendars. c < nextComponent h" "distinct calendars"
    and "list_all2 (\<lambda>text c. parse text = Inr (readComponent (Suc j) h c)) texts calendars"
    and "combineCalendarsH h calendars True = (h', combined)"
  shows "combineCalendars parse texts True = Inr (readComponent (Suc k) h' combined)"
proof -
  have "concat (map (\<lambda>d. map (processEvent True) (sourceEvents parse d)) texts) =
      map (\<lambda>e. processEvent True (readComponent 0 h e))
        (concat (map (\<lambda>c. getAllSubcomponentsH h c ''vevent'') calendars)) \<and>
      list_all (\<lambda>d. \<not> isl (parse d)) texts"
    using assms(4)
  proof (induction texts calendars rule: list_all2_induct)
    case Nil
    then show ?case by simp
  next
    case (Cons t texts c calendars)
    from Cons.hyps(1) have "map (processEvent True) (sourceEvents parse t) =
        map (\<lambda>e. processEvent True (readComponent 0 h e)) (getAllSubcomponentsH h c ''vevent'')"
      by (simp add: sourceEvents_def getAllSubcomponents_read comp_def
          processEvent_True_read [of j] del: readComponent.simps)
    with Cons show ?case by simp
  qed
  then have "combineCalendars parse texts True =
      Inr (Component ''vcalendar'' []
        (map (\<lambda>e. processEvent True (readComponent 0 h e))
          (concat (map (\<lambda>c. getAllSubcomponentsH h c ''vevent'') calendars))))"
    by (simp only: combineCalendars_all_parse)
  then show ?thesis
    by (simp only: combineCalendarsH_reads_as_processEvent [OF assms(1,2,3,5)])
qed

section \<open>No object shared with the sources\<close>

lemma example_heap_source:
  "getAllSubcomponentsH exampleHeap 0 ''vevent'' = [1]"
  "readComponent 0 exampleHeap 1 =
     Component ''vevent''
       [textProp ''summary'' ''Dentist'', textProp ''uid'' ''a-1'',
        timeProp ''dtstart'' ''2024-01-02T09:00:00'' None, textProp ''location'' ''Clinic''] []"
  by (simp_all add: getAllSubcomponentsH_def subcomponentsOf_def propertiesOf_def
      readProperty_def exampleHeap_def textProp_def timeProp_def)

lemma example_heap_busy:
  "readComponent (Suc k) (fst exampleRun) (snd exampleRun) =
     Component ''vcalendar'' []
       [Component ''vevent''
          [timeProp ''dtstart'' ''2024-01-02T09:00:00'' (Some UtcTimezone),
           textProp ''uid'' ''a-1'',
           textProp ''summary'' ''BUSY''] []]"
proof -
  have run: "combineCalendarsH exampleHeap [0] True = (fst exampleRun, snd exampleRun)"
    by (simp add: exampleRun_def)
  have roots: "\<forall>c \<in> set [0]. c < nextComponent exampleHeap"
    by (simp add: exampleHeap_def)
  have "processEvent True (readComponent 0 exampleHeap 1) =
      Component ''vevent''
        [timeProp ''dtstart'' ''2024-01-02T09:00:00'' (Some UtcTimezone),
         textProp ''uid'' ''a-1'',
         textProp ''summary'' ''BUSY''] []"
    unfolding example_heap_source
    by (simp add: library_defs combine_defs textProp_def timeProp_def)
  with combineCalendarsH_reads_as_processEvent [OF example_heap_wf roots _ run, of k]
  show ?thesis
    by (simp add: example_heap_source del: readComponent.simps)
qed

text \<open>
  C5. Run with obfuscate set on a well-formed heap, combineCalendars appends only
  components that did not exist before the call, each without subcomponents. After the
  call no component that existed before holds a Property object of an appended event (the
  essential properties were moved out of the source events, the summary is new), and the
  components that existed before hold only components that existed before. So whatever is
  done afterwards to the source trees, that is to any component that existed before the
  call and to any property such a component holds, the combined document reads the same.
\<close>

theorem redacted_events_share_no_object_with_sources:
  assumes "wellFormed h"
    and "\<forall>c \<in> set calendars. c < nextComponent h"
    and "combineCalendarsH h calendars True = (h', combined)"
    and "\<forall>c. nextComponent h \<le> c \<longrightarrow> componentAt h'' c = componentAt h' c"
    and "\<forall>p. (\<forall>c < nextComponent h. p \<notin> set (propertiesOf h' c)) \<longrightarrow>
           propertyAt h'' p = propertyAt h' p"
  shows "combined = nextComponent h \<and>
    (\<forall>e \<in> set (subcomponentsOf h' combined).
       nextComponent h < e \<and> e < nextComponent h' \<and> subcomponentsOf h' e = [] \<and>
       (\<forall>p \<in> set (propertiesOf h' e). \<forall>c < nextComponent h. p \<notin> set (propertiesOf h' c))) \<and>
    (\<forall>c < nextComponent h. \<forall>s \<in> set (subcomponentsOf h' c). s < nextComponent h) \<and>
    readComponent k h'' combined = readComponent k h' combined"
proof -
  let ?n0 = "nextComponent h"
  have c: "combined = ?n0" and inv: "combining ?n0 h'"
    using combineCalendarsH_combining [OF assms(1,2,3)] by blast+
  have events: "?n0 < e \<and> e < nextComponent h' \<and> subcomponentsOf h' e = [] \<and>
      (\<forall>p \<in> set (propertiesOf h' e). \<forall>c < ?n0. p \<notin> set (propertiesOf h' c))"
    if "e \<in> set (subcomponentsOf h' combined)" for e
  proof -
    from that inv c have e: "?n0 < e" "e < nextComponent h'"
      by (auto simp: combining_def)
    with inv have "subcomponentsOf h' e = []"
      by (simp add: combining_def)
    moreover have "p \<notin> set (propertiesOf h' c')"
      if "p \<in> set (propertiesOf h' e)" "c' < ?n0" for p c'
      using inv _ e(2) that by (rule new_component_properties_unshared) (use e(1) in simp)
    ultimately show ?thesis using e by (intro conjI ballI allI impI)
  qed
  then have new: "\<forall>e \<in> set (subcomponentsOf h' combined).
      ?n0 < e \<and> e < nextComponent h' \<and> subcomponentsOf h' e = [] \<and>
      (\<forall>p \<in> set (propertiesOf h' e). \<forall>c < ?n0. p \<notin> set (propertiesOf h' c))"
    by (rule ballI)
  have old: "\<forall>c < ?n0. \<forall>s \<in> set (subcomponentsOf h' c). s < ?n0"
    using inv by (simp add: combining_def)
  have "?n0 < nextComponent h'"
    using inv by (simp add: combining_def)
  then have "readComponent k h'' ?n0 = readComponent k h' ?n0"
    by (rule readComponent_frame [OF inv assms(4,5) order_refl])
  with c have "readComponent k h'' combined = readComponent k h' combined"
    by simp
  with c new old show ?thesis
    by (intro conjI)
qed

theorem redacted_events_share_no_object_with_sources_witness:
  "snd exampleRun = 2 \<and>
   readComponent 2
     ((fst exampleRun)\<lparr>componentAt := (componentAt (fst exampleRun))(1 :=
        \<lparr>componentName = ''vtodo'', componentProperties = [], componentSubcomponents = [],
         componentParent = None\<rparr>)\<rparr>)
     (snd exampleRun) =
   Component ''vcalendar'' []
     [Component ''vevent''
        [timeProp ''dtstart'' ''2024-01-02T09:00:00'' (Some UtcTimezone),
         textProp ''uid'' ''a-1'',
         textProp ''summary'' ''BUSY''] []]"
proof -
  define h' where "h' = fst exampleRun"
  define combined where "combined = snd exampleRun"
  define h'' where "h'' = h'\<lparr>componentAt := (componentAt h')(1 :=
        \<lparr>componentName = ''vtodo'', componentProperties = [], componentSubcomponents = [],
         componentParent = None\<rparr>)\<rparr>"
  have run: "combineCalendarsH exampleHeap [0] True = (h', combined)"
    by (simp add: exampleRun_def h'_def combined_def)
  have n: "nextComponent exampleHeap = 2"
    by (simp add: exampleHeap_def)
  have roots: "\<forall>c \<in> set [0]. c < nextComponent exampleHeap"
    by (simp add: n)
  have comps: "\<forall>c. nextComponent exampleHeap \<le> c \<longrightarrow> componentAt h'' c = componentAt h' c"
    by (simp add: n h''_def)
  have props: "\<forall>p. (\<forall>c < nextComponent exampleHeap. p \<notin> set (propertiesOf h' c)) \<longrightarrow>
      propertyAt h'' p = propertyAt h' p"
    by (simp add: h''_def)
  note result = redacted_events_share_no_object_with_sources
    [OF example_heap_wf roots run comps props, of 2]
  from result have "combined = 2"
    unfolding n by (rule conjunct1)
  moreover from result have "readComponent 2 h'' combined = readComponent 2 h' combined"
    by (elim conjE)
  then have "readComponent 2 h'' combined =
      Component ''vcalendar'' []
        [Component ''vevent''
           [timeProp ''dtstart'' ''2024-01-02T09:00:00'' (Some UtcTimezone),
            textProp ''uid'' ''a-1'',
            textProp ''summary'' ''BUSY''] []]"
    unfolding h'_def combined_def by (simp only: example_heap_busy [of 1, unfolded Suc_1])
  ultimately show ?thesis
    unfolding h''_def h'_def combined_def by (rule conjI)
qed

end
